theory Spec2Isabelle
  imports Complex_Main "HOL-Library.Word" "HOL-Library.Product_Lexorder"
begin

unbundle bit_operations_syntax

section \<open>Errors\<close>

text \<open>
  The ways in which the C++ code stops without returning: an exception thrown by the
  bounds-checked \<open>std::vector::at\<close>, a failed glog \<open>CHECK\<close> (which aborts), and
  undefined behaviour (reading \<open>top()\<close> of an empty \<open>std::priority_queue\<close>, erasing
  past the end of a vector, dividing by zero, overflowing a signed loop counter).
\<close>

datatype error = OutOfRange | CheckFailed | UndefinedBehaviour

section \<open>Sub-map collection (submap\_collection.cpp)\<close>

text \<open>
  Modelled from the spec: the class \<open>Submap\<close>, whose header is not among the sources.
  A sub-map carries the identifier assigned at its creation and the grid configuration
  it was constructed with. The constructor takes the identifier it assigns as an
  argument here, since the instance counter it reads is not in the sources.
\<close>

record Submap =
  getID :: int
  voxel_size :: real
  voxels_per_side :: int

definition Submap_new :: "int \<Rightarrow> real \<Rightarrow> int \<Rightarrow> Submap" where
  "Submap_new new_id vs vps = \<lparr>getID = new_id, voxel_size = vs, voxels_per_side = vps\<rparr>"

text \<open>
  The members \<open>submaps_\<close> (a vector of owning pointers) and \<open>id_to_index_\<close> (an
  unordered map from identifier to position).
\<close>

record SubmapCollection =
  submaps :: "Submap list"
  id_to_index :: "int \<rightharpoonup> nat"

definition empty_collection :: SubmapCollection where
  "empty_collection = \<lparr>submaps = [], id_to_index = Map.empty\<rparr>"

definition addSubmap :: "Submap \<Rightarrow> SubmapCollection \<Rightarrow> SubmapCollection" where
  "addSubmap submap c =
     (let c1 = c\<lparr>id_to_index := (id_to_index c)(getID submap \<mapsto> length (submaps c))\<rparr>
      in c1\<lparr>submaps := submaps c1 @ [submap]\<rparr>)"

definition createSubmap ::
  "int \<Rightarrow> real \<Rightarrow> int \<Rightarrow> SubmapCollection \<Rightarrow> Submap \<times> SubmapCollection" where
  "createSubmap new_id vs vps c =
     (let c1 = c\<lparr>submaps := submaps c @ [Submap_new new_id vs vps]\<rparr>;
          new_submap = last (submaps c1);
          c2 = c1\<lparr>id_to_index := (id_to_index c1)(getID new_submap \<mapsto> length (submaps c1) - 1)\<rparr>
      in (new_submap, c2))"

text \<open>
  \<open>removeSubmap\<close>: \<open>submaps_.erase(submaps_.begin() + it->second)\<close> is undefined when
  the stored position is not a position of the vector. The loop over the remaining
  entries of the index table lowers every position above the removed one by one; the
  entries are independent of each other, so the iteration order does not matter.
\<close>

definition removeSubmap :: "int \<Rightarrow> SubmapCollection \<Rightarrow> error + (bool \<times> SubmapCollection)" where
  "removeSubmap ident c =
     (case id_to_index c ident of
        None \<Rightarrow> Inr (False, c)
      | Some previous_index \<Rightarrow>
          if previous_index < length (submaps c) then
            let c1 = c\<lparr>submaps := take previous_index (submaps c) @ drop (Suc previous_index) (submaps c)\<rparr>;
                c2 = c1\<lparr>id_to_index := (id_to_index c1)(ident := None)\<rparr>;
                c3 = c2\<lparr>id_to_index :=
                        (\<lambda>k. map_option (\<lambda>second. if second > previous_index then second - 1 else second)
                                (id_to_index c2 k))\<rparr>
            in Inr (True, c3)
          else Inl UndefinedBehaviour)"

definition submapIdExists :: "int \<Rightarrow> SubmapCollection \<Rightarrow> bool" where
  "submapIdExists ident c = (id_to_index c ident \<noteq> None)"

definition clear :: "SubmapCollection \<Rightarrow> SubmapCollection" where
  "clear c = c\<lparr>submaps := [], id_to_index := Map.empty\<rparr>"

subsection \<open>Sequences of operations\<close>

datatype collection_op =
    CreateSubmap int real int
  | AddSubmap Submap
  | RemoveSubmap int
  | Clear

fun apply_op :: "collection_op \<Rightarrow> SubmapCollection \<Rightarrow> error + SubmapCollection" where
  "apply_op (CreateSubmap new_id vs vps) c = Inr (snd (createSubmap new_id vs vps c))"
| "apply_op (AddSubmap submap) c = Inr (addSubmap submap c)"
| "apply_op (RemoveSubmap ident) c =
     (case removeSubmap ident c of Inl e \<Rightarrow> Inl e | Inr (_, c') \<Rightarrow> Inr c')"
| "apply_op Clear c = Inr (clear c)"

fun run_ops :: "collection_op list \<Rightarrow> SubmapCollection \<Rightarrow> error + SubmapCollection" where
  "run_ops [] c = Inr c"
| "run_ops (x # xs) c = (case apply_op x c of Inl e \<Rightarrow> Inl e | Inr c' \<Rightarrow> run_ops xs c')"

text \<open>
  The identifiers that are live after an operation, told from the operations alone,
  and the requirement that a created or added sub-map brings an identifier that is
  not live at that moment.
\<close>

fun live_after :: "int set \<Rightarrow> collection_op \<Rightarrow> int set" where
  "live_after L (CreateSubmap new_id vs vps) = insert new_id L"
| "live_after L (AddSubmap submap) = insert (getID submap) L"
| "live_after L (RemoveSubmap ident) = L - {ident}"
| "live_after L Clear = {}"

fun live_ids :: "int set \<Rightarrow> collection_op list \<Rightarrow> int set" where
  "live_ids L [] = L"
| "live_ids L (x # xs) = live_ids (live_after L x) xs"

fun fresh_op :: "int set \<Rightarrow> collection_op \<Rightarrow> bool" where
  "fresh_op L (CreateSubmap new_id vs vps) = (new_id \<notin> L)"
| "fresh_op L (AddSubmap submap) = (getID submap \<notin> L)"
| "fresh_op L (RemoveSubmap ident) = True"
| "fresh_op L Clear = True"

fun fresh_ids :: "int set \<Rightarrow> collection_op list \<Rightarrow> bool" where
  "fresh_ids L [] = True"
| "fresh_ids L (x # xs) = (fresh_op L x \<and> fresh_ids (live_after L x) xs)"

text \<open>
  The density invariant in the words of the specification: the index table is defined
  exactly on the live identifiers, it is a bijection from them onto the positions
  \<open>0, ..., n - 1\<close> of the storage, and the position of an identifier holds the sub-map
  with that identifier.
\<close>

definition dense :: "int set \<Rightarrow> SubmapCollection \<Rightarrow> bool" where
  "dense L c =
     (dom (id_to_index c) = L \<and>
      bij_betw (\<lambda>k. the (id_to_index c k)) L {0..<length (submaps c)} \<and>
      (\<forall>k\<in>L. getID (submaps c ! the (id_to_index c k)) = k))"

text \<open>The same invariant in the form that the proofs carry through the operations.\<close>

definition indexed :: "SubmapCollection \<Rightarrow> bool" where
  "indexed c =
     (distinct (map getID (submaps c)) \<and>
      (\<forall>k i. id_to_index c k = Some i \<longleftrightarrow> i < length (submaps c) \<and> getID (submaps c ! i) = k))"

section \<open>Voxels\<close>

type_synonym u8 = "8 word"
type_synonym u16 = "16 word"
type_synonym u32 = "32 word"

text \<open>
  Modelled from the spec: the structs \<open>ClassVoxel\<close> and \<open>ClassUncertaintyVoxel\<close>, whose
  header is not among the sources. The type \<open>Counter\<close> is the parameter \<open>'counter\<close>;
  the codec uses it as an unsigned integer type \<open>'c word\<close> of some width \<open>'c\<close>.
  \<open>belongs_count\<close> and \<open>foreign_count\<close> are counters that fit in 16 bits.
  \<open>current_index\<close> is a 32-bit \<open>int\<close> in two's complement, whose value \<open>-1\<close> means
  "unset". The uncertainty variant derives from \<open>ClassVoxel\<close> and adds one scalar of an
  arithmetic type \<open>'u\<close>.
\<close>

record 'counter ClassVoxel =
  belongs_count :: u16
  foreign_count :: u16
  counts :: "'counter list"
  current_index :: u32
  is_gt :: bool

record ('counter, 'u) ClassUncertaintyVoxel = "'counter ClassVoxel" +
  uncertainty_value :: 'u

section \<open>Voxel codec (serialization.cpp)\<close>

text \<open>
  The macros \<open>PANOPTIC_MAPPING_SERIALIZE_TOP_N_COUNTS\<close> and \<open>COUNTER_SIZE_BITS\<close> are
  defined in a header that is not among the sources; every function that uses them takes
  them as the arguments \<open>top_n\<close> and \<open>csb\<close>.
\<close>

definition vector_at :: "'a list \<Rightarrow> nat \<Rightarrow> error + 'a" where
  "vector_at xs i = (if i < length xs then Inr (xs ! i) else Inl OutOfRange)"

text \<open>
  \<open>std::priority_queue<std::pair<Counter, uint8_t>>\<close> is a max-heap under the
  lexicographic order of pairs. It is represented by the list of the elements it holds:
  \<open>push\<close> adds one, \<open>top()\<close> is the greatest element and is undefined on an empty
  queue, \<open>pop()\<close> removes the greatest element.
\<close>

definition pq_top :: "'a::linorder list \<Rightarrow> error + 'a" where
  "pq_top q = (case q of [] \<Rightarrow> Inl UndefinedBehaviour | x # xs \<Rightarrow> Inr (fold max xs x))"

text \<open>
  The second loop of \<open>get_top_n_elems\<close>; the first argument is the number of iterations
  that remain. (With \<open>n > 255\<close> the 8-bit loop counter would never reach \<open>n\<close>; the queue
  holds at most 255 elements, so the empty queue is read first in that case as well.)
\<close>

fun pop_top_n ::
  "nat \<Rightarrow> ('c::len word \<times> u8) list \<Rightarrow> u8 list \<Rightarrow> 'c word list \<Rightarrow> error + (u8 list \<times> 'c word list)" where
  "pop_top_n 0 count_to_idx indices score_counts = Inr (indices, score_counts)"
| "pop_top_n (Suc k) count_to_idx indices score_counts =
     (case pq_top count_to_idx of
        Inl e \<Rightarrow> Inl e
      | Inr t \<Rightarrow> pop_top_n k (remove1 t count_to_idx) (indices @ [snd t]) (score_counts @ [fst t]))"

text \<open>
  The first loop runs its 8-bit counter \<open>i\<close> up to \<open>static_cast<uint8_t>(all_items.size())\<close>,
  that is, up to the size modulo 256.
\<close>

definition get_top_n_elems ::
  "'c::len word list \<Rightarrow> u8 list \<Rightarrow> 'c word list \<Rightarrow> nat \<Rightarrow> error + (u8 list \<times> 'c word list)" where
  "get_top_n_elems all_items indices score_counts n =
     (let count_to_idx =
            fold (\<lambda>i q. (all_items ! i, of_nat i) # q) [0..<length all_items mod 256] []
      in pop_top_n n count_to_idx indices score_counts)"

text \<open>
  The loop of \<open>convert_vector_to_uint32\<close> over the entries that remain, with the loop
  index \<open>i\<close> and the variables \<open>saved_count\<close>, \<open>data_int\<close> and \<open>*serialized_data\<close>.
  The entry is shifted after integral promotion and added to the 32-bit \<open>data_int\<close>:
  the sum is that of the entry converted to 32 bits and shifted there. The shift
  distance is below 32. (An entry narrower than \<open>int\<close> is shifted as an \<open>int\<close>; where
  the result reaches bit 31 its value is that of the unsigned shift, by the rule of
  C++14 and later.)
\<close>

fun convert_loop ::
  "nat \<Rightarrow> 'a::len word list \<Rightarrow> nat \<Rightarrow> nat \<Rightarrow> u32 \<Rightarrow> u32 list \<Rightarrow> nat \<times> u32 \<times> u32 list" where
  "convert_loop bits_per_entry [] i saved_count data_int serialized_data =
     (saved_count, data_int, serialized_data)"
| "convert_loop bits_per_entry (d # ds) i saved_count data_int serialized_data =
     (let data_packages = 32 div bits_per_entry;
          byte_idx = i mod data_packages;
          data_int1 = data_int + push_bit (byte_idx * bits_per_entry) (ucast d)
      in if byte_idx = data_packages - 1
         then convert_loop bits_per_entry ds (Suc i) (saved_count + data_packages) 0
                (serialized_data @ [data_int1])
         else convert_loop bits_per_entry ds (Suc i) saved_count data_int1 serialized_data)"

text \<open>
  \<open>32 / bits_per_entry\<close> divides by zero when \<open>bits_per_entry\<close> is 0, and
  \<open>i % data_packages\<close> does when \<open>bits_per_entry\<close> exceeds 32 and there is an entry.
\<close>

definition convert_vector_to_uint32 ::
  "'a::len word list \<Rightarrow> u32 list \<Rightarrow> nat \<Rightarrow> error + u32 list" where
  "convert_vector_to_uint32 data serialized_data bits_per_entry =
     (if bits_per_entry = 0 \<or> (32 div bits_per_entry = 0 \<and> data \<noteq> [])
      then Inl UndefinedBehaviour
      else case convert_loop bits_per_entry data 0 0 0 serialized_data of
             (saved_count, data_int, serialized_data1) \<Rightarrow>
               if saved_count < length data then Inr (serialized_data1 @ [data_int])
               else Inr serialized_data1)"

definition convertVoxelToInt32 ::
  "nat \<Rightarrow> nat \<Rightarrow> 'c::len word ClassVoxel \<Rightarrow> u32 list \<Rightarrow> error + (bool \<times> u32 list)" where
  "convertVoxelToInt32 top_n csb voxel data =
     (let class_count = length (counts voxel) in
      if \<not> class_count < 258 then Inl CheckFailed
      else
        let data1 = data @ [of_nat class_count];
            data2 = data1 @ [ucast (belongs_count voxel) OR push_bit 16 (ucast (foreign_count voxel))];
            data3 = data2 @ [(if is_gt voxel then 1 else 0) OR push_bit 16 (current_index voxel)]
        in if class_count = 0
           then Inr (belongs_count voxel \<noteq> 0 \<or> foreign_count voxel \<noteq> 0, data3)
           else
             case get_top_n_elems (counts voxel) [] [] top_n of
               Inl e \<Rightarrow> Inl e
             | Inr (indices_list, score_counts) \<Rightarrow>
                 (case convert_vector_to_uint32 indices_list data3 8 of
                    Inl e \<Rightarrow> Inl e
                  | Inr data4 \<Rightarrow>
                      (case convert_vector_to_uint32 score_counts data4 csb of
                         Inl e \<Rightarrow> Inl e
                       | Inr data5 \<Rightarrow> Inr (True, data5))))"

text \<open>
  The two read loops of \<open>readVoxelFromInt32\<close>, over the loop indices that remain. In
  both, \<open>mask\<close> has all its 32 bits set: \<open>~static_cast<uint8_t>(0)\<close> complements the
  promoted \<open>int\<close> zero, and so does \<open>~static_cast<Counter>(0)\<close> for a \<open>Counter\<close>
  narrower than \<open>int\<close>, while a wider \<open>Counter\<close> gives at least 32 set bits. The value
  read is converted when it is stored in \<open>data_content\<close>: to 8 bits, and to the width
  of \<open>Counter\<close>.
\<close>

definition mask32 :: u32 where
  "mask32 = NOT 0"

fun read_indices :: "u32 list \<Rightarrow> nat \<Rightarrow> nat list \<Rightarrow> u8 list \<Rightarrow> error + u8 list" where
  "read_indices data data_idx [] indices = Inr indices"
| "read_indices data data_idx (i # is) indices =
     (let byte_idx = i mod 4;
          vector_idx = i div 4
      in case vector_at data (data_idx + vector_idx) of
           Inl e \<Rightarrow> Inl e
         | Inr w \<Rightarrow>
             read_indices data data_idx is
               (indices @ [ucast (drop_bit (byte_idx * 8) (w AND push_bit (byte_idx * 8) mask32))]))"

fun read_counts ::
  "nat \<Rightarrow> u32 list \<Rightarrow> nat \<Rightarrow> nat list \<Rightarrow> 'c::len word list \<Rightarrow> error + 'c word list" where
  "read_counts csb data data_idx [] cs = Inr cs"
| "read_counts csb data data_idx (i # is) cs =
     (let data_per_int = 32 div csb;
          byte_idx = i mod data_per_int;
          vector_idx = i div data_per_int
      in case vector_at data (data_idx + vector_idx) of
           Inl e \<Rightarrow> Inl e
         | Inr w \<Rightarrow>
             read_counts csb data data_idx is
               (cs @ [ucast (drop_bit (byte_idx * csb) (w AND push_bit (byte_idx * csb) mask32))]))"

text \<open>The last loop: \<open>voxel.counts.at(indices.at(i)) = counts.at(i)\<close>.\<close>

fun scatter :: "u8 list \<Rightarrow> 'c::len word list \<Rightarrow> nat list \<Rightarrow> 'c word list \<Rightarrow> error + 'c word list" where
  "scatter indices cs [] voxel_counts = Inr voxel_counts"
| "scatter indices cs (i # is) voxel_counts =
     (case vector_at indices i of
        Inl e \<Rightarrow> Inl e
      | Inr idx \<Rightarrow>
          (case vector_at cs i of
             Inl e \<Rightarrow> Inl e
           | Inr c \<Rightarrow>
               if unat idx < length voxel_counts
               then scatter indices cs is (voxel_counts[unat idx := c])
               else Inl OutOfRange))"

text \<open>
  \<open>readVoxelFromInt32\<close> takes the words, the position \<open>data_idx\<close> and the voxel to fill,
  and returns its result, the new position and the voxel. The two counts and the index
  are cast to \<open>uint8_t\<close> before they are stored. \<open>std::ceil(TOP_N / 4.0)\<close> is the
  quotient rounded up. The zero-filling loop compares its \<open>int\<close> counter with the
  unsigned \<open>num_classes\<close>; the increment after the iteration \<open>2^31 - 1\<close> overflows the
  counter, so the loop is undefined when \<open>num_classes\<close> is \<open>2^31\<close> or more.
  \<open>data_per_int\<close> is 0 when \<open>csb\<close> exceeds 32 (and the constant expression that
  defines it divides by zero when \<open>csb\<close> is 0); then \<open>i % data_per_int\<close>, or the
  conversion of \<open>TOP_N / 0\<close> to a position, is undefined.
\<close>

definition readVoxelFromInt32 ::
  "nat \<Rightarrow> nat \<Rightarrow> u32 list \<Rightarrow> nat \<Rightarrow> 'c::len word ClassVoxel \<Rightarrow> error + (bool \<times> nat \<times> 'c word ClassVoxel)" where
  "readVoxelFromInt32 top_n csb data data_idx voxel =
     (case vector_at data data_idx of Inl e \<Rightarrow> Inl e | Inr num_classes \<Rightarrow>
      case vector_at data (data_idx + 1) of Inl e \<Rightarrow> Inl e | Inr bytes_1 \<Rightarrow>
      case vector_at data (data_idx + 2) of Inl e \<Rightarrow> Inl e | Inr bytes_2 \<Rightarrow>
      let data_idx3 = data_idx + 3;
          voxel1 = voxel\<lparr>foreign_count := ucast (ucast (drop_bit 16 (bytes_1 AND 0xFFFF0000)) :: u8)\<rparr>;
          voxel2 = voxel1\<lparr>belongs_count := ucast (ucast (bytes_1 AND 0x0000FFFF) :: u8)\<rparr>;
          voxel3 = voxel2\<lparr>current_index := ucast (ucast (drop_bit 16 (bytes_2 AND 0xFFFF0000)) :: u8)\<rparr>;
          voxel4 = voxel3\<lparr>is_gt := (bytes_2 AND 0x0000FFFF \<noteq> 0)\<rparr>
      in if num_classes = 0
         then Inr (belongs_count voxel4 \<noteq> 0 \<or> foreign_count voxel4 \<noteq> 0, data_idx3,
                   voxel4\<lparr>current_index := - 1\<rparr>)
         else if 0x80000000 \<le> num_classes
         then Inl UndefinedBehaviour
         else
           let voxel5 = voxel4\<lparr>counts := counts voxel4 @ replicate (unat num_classes) 0\<rparr>
           in case read_indices data data_idx3 [0..<top_n] [] of Inl e \<Rightarrow> Inl e | Inr indices \<Rightarrow>
              let data_idx4 = data_idx3 + (top_n + 3) div 4;
                  data_per_int = 32 div csb
              in if data_per_int = 0 then Inl UndefinedBehaviour
                 else
                   case read_counts csb data data_idx4 [0..<top_n] [] of Inl e \<Rightarrow> Inl e | Inr cs \<Rightarrow>
                   let data_idx5 = data_idx4 + (top_n + data_per_int - 1) div data_per_int
                   in case scatter indices cs [0..<length indices] (counts voxel5) of
                        Inl e \<Rightarrow> Inl e
                      | Inr voxel_counts \<Rightarrow> Inr (True, data_idx5, voxel5\<lparr>counts := voxel_counts\<rparr>))"

section \<open>Block serialization (serialization.cpp)\<close>

text \<open>
  Modelled from the spec: voxblox's \<open>Block\<close>, which is not among the sources: a
  fixed-capacity ordered sequence \<open>voxels_\<close> of \<open>num_voxels_\<close> voxels.
\<close>

record 'v Block =
  voxels :: "'v list"

definition num_voxels :: "'v Block \<Rightarrow> nat" where
  "num_voxels b = length (voxels b)"

fun serialize_loop ::
  "nat \<Rightarrow> nat \<Rightarrow> 'c::len word ClassVoxel list \<Rightarrow> u32 list \<Rightarrow> error + u32 list" where
  "serialize_loop top_n csb [] data = Inr data"
| "serialize_loop top_n csb (voxel # vs) data =
     (case convertVoxelToInt32 top_n csb voxel data of
        Inl e \<Rightarrow> Inl e
      | Inr (_, data1) \<Rightarrow> serialize_loop top_n csb vs data1)"

text \<open>
  \<open>CHECK_EQ(32 % COUNTER_SIZE_BITS, 0)\<close>: the remainder by 0 is \<open>32\<close> here, so that a
  width of 0 fails the check as every other width that does not divide 32.
\<close>

definition serializeToIntegers ::
  "nat \<Rightarrow> nat \<Rightarrow> 'c::len word ClassVoxel Block \<Rightarrow> error + u32 list" where
  "serializeToIntegers top_n csb b =
     (if 32 mod csb \<noteq> 0 then Inl CheckFailed
      else serialize_loop top_n csb (voxels b) [])"

function deserialize_loop ::
  "nat \<Rightarrow> nat \<Rightarrow> u32 list \<Rightarrow> nat \<Rightarrow> nat \<Rightarrow> 'c::len word ClassVoxel list \<Rightarrow>
   error + (nat \<times> nat \<times> 'c word ClassVoxel list)" where
  "deserialize_loop top_n csb data voxel_idx data_idx vs =
     (if voxel_idx < length vs \<and> data_idx < length data
      then case readVoxelFromInt32 top_n csb data data_idx (vs ! voxel_idx) of
             Inl e \<Rightarrow> Inl e
           | Inr (_, data_idx1, voxel) \<Rightarrow>
               deserialize_loop top_n csb data (Suc voxel_idx) data_idx1 (vs[voxel_idx := voxel])
      else Inr (voxel_idx, data_idx, vs))"
  by pat_completeness auto
termination
  by (relation "measure (\<lambda>(top_n, csb, data, voxel_idx, data_idx, vs). length vs - voxel_idx)") auto

declare deserialize_loop.simps [simp del]

definition deserializeFromIntegers ::
  "nat \<Rightarrow> nat \<Rightarrow> u32 list \<Rightarrow> 'c::len word ClassVoxel Block \<Rightarrow> error + 'c word ClassVoxel Block" where
  "deserializeFromIntegers top_n csb data b =
     (if 32 mod csb \<noteq> 0 then Inl CheckFailed
      else
        let num_data_packets = length data
        in case deserialize_loop top_n csb data 0 0 (voxels b) of
             Inl e \<Rightarrow> Inl e
           | Inr (voxel_idx, data_idx, vs) \<Rightarrow>
               if voxel_idx \<noteq> num_voxels b then Inl CheckFailed
               else if data_idx \<noteq> num_data_packets then Inl CheckFailed
               else Inr (b\<lparr>voxels := vs\<rparr>))"

section \<open>Voxel fusion (serialization.cpp)\<close>

text \<open>
  \<open>classVoxelBelongingProbability\<close> is declared in a header that is not among the
  sources; the merge functions take it as the argument \<open>prob\<close>, into any type with a
  comparison. The base function receives \<open>voxel_B\<close> through a pointer to its
  \<open>ClassVoxel\<close> part and \<open>voxel_A\<close> as a \<open>ClassVoxel\<close>.
\<close>

definition mergeVoxelAIntoVoxelB ::
  "('c ClassVoxel \<Rightarrow> 'p::ord) \<Rightarrow> 'c ClassVoxel \<Rightarrow> ('c, 'z) ClassVoxel_scheme \<Rightarrow>
   ('c, 'z) ClassVoxel_scheme" where
  "mergeVoxelAIntoVoxelB prob voxel_A voxel_B =
     (let voxel_B1 =
            (if is_gt voxel_A \<or>
                (prob voxel_A > prob (ClassVoxel.truncate voxel_B) \<and> \<not> is_gt voxel_B)
             then voxel_B\<lparr>current_index := current_index voxel_A,
                          foreign_count := foreign_count voxel_A,
                          belongs_count := belongs_count voxel_A,
                          counts := counts voxel_A\<rparr>
             else voxel_B)
      in if is_gt voxel_A then voxel_B1\<lparr>is_gt := True\<rparr> else voxel_B1)"

definition mergeVoxelAIntoVoxelB_uncertainty ::
  "('c ClassVoxel \<Rightarrow> 'p::ord) \<Rightarrow> ('c, 'u::{numeral,inverse}) ClassUncertaintyVoxel \<Rightarrow>
   ('c, 'u) ClassUncertaintyVoxel \<Rightarrow> ('c, 'u) ClassUncertaintyVoxel" where
  "mergeVoxelAIntoVoxelB_uncertainty prob voxel_A voxel_B =
     (let voxel_B1 = mergeVoxelAIntoVoxelB prob (ClassVoxel.truncate voxel_A) voxel_B
      in if \<not> is_gt voxel_B1
         then voxel_B1\<lparr>uncertainty_value :=
                         (uncertainty_value voxel_B1 + uncertainty_value voxel_A) / 2\<rparr>
         else voxel_B1)"

text \<open>
  Modelled from the spec: the belonging probability, \<open>belongs_count / (belongs_count +
  foreign_count)\<close>, taken as 0 when both counts are 0.
\<close>

definition classVoxelBelongingProbability :: "'c ClassVoxel \<Rightarrow> real" where
  "classVoxelBelongingProbability voxel =
     (if unat (belongs_count voxel) + unat (foreign_count voxel) = 0 then 0
      else real (unat (belongs_count voxel)) /
           real (unat (belongs_count voxel) + unat (foreign_count voxel)))"

section \<open>The packed layout and the top-n classes, stated independently of the loops\<close>

text \<open>
  The word that holds the entries \<open>ds\<close>, the first one in the least significant
  \<open>bits\<close> bits, and the words that hold a whole vector, \<open>32 div bits\<close> entries to a word.
\<close>

fun pack_word :: "nat \<Rightarrow> 'a::len word list \<Rightarrow> u32" where
  "pack_word bits [] = 0"
| "pack_word bits (d # ds) = ucast d + push_bit bits (pack_word bits ds)"

function pack_words :: "nat \<Rightarrow> 'a::len word list \<Rightarrow> u32 list" where
  "pack_words bits ds =
     (if ds = [] \<or> 32 div bits = 0 then []
      else pack_word bits (take (32 div bits) ds) # pack_words bits (drop (32 div bits) ds))"
  by pat_completeness auto
termination
  by (relation "measure (\<lambda>(bits, ds). length ds)") auto

declare pack_words.simps [simp del]

text \<open>
  Class \<open>j\<close> outranks class \<open>i\<close> when its count is greater, or equal with a higher index.
  The rank of a class is the number of classes that outrank it; the top \<open>n\<close> classes are
  those of rank below \<open>n\<close>.
\<close>

definition outranks :: "'a::linorder list \<Rightarrow> nat \<Rightarrow> nat \<Rightarrow> bool" where
  "outranks cs j i = (cs ! i < cs ! j \<or> (cs ! i = cs ! j \<and> i < j))"

definition rank_of :: "'a::linorder list \<Rightarrow> nat \<Rightarrow> nat" where
  "rank_of cs i = length (filter (\<lambda>j. outranks cs j i) [0..<length cs])"

definition in_top_n :: "nat \<Rightarrow> 'a::linorder list \<Rightarrow> nat \<Rightarrow> bool" where
  "in_top_n n cs i = (rank_of cs i < n)"

text \<open>The three words that open the encoding of every voxel.\<close>

definition header_words :: "'a ClassVoxel \<Rightarrow> u32 list" where
  "header_words voxel =
     [of_nat (length (counts voxel)),
      ucast (belongs_count voxel) OR push_bit 16 (ucast (foreign_count voxel)),
      (if is_gt voxel then 1 else 0) OR push_bit 16 (current_index voxel)]"

text \<open>
  The words that \<open>convertVoxelToInt32\<close> appends for a voxel, and the class counts for
  which the loops of the encoder stay within the queue and the 8-bit counter.
\<close>

definition encode_voxel :: "nat \<Rightarrow> nat \<Rightarrow> 'c::len word ClassVoxel \<Rightarrow> u32 list" where
  "encode_voxel top_n csb voxel =
     (case convertVoxelToInt32 top_n csb voxel [] of Inl e \<Rightarrow> [] | Inr (b, ws) \<Rightarrow> ws)"

definition codec_ok :: "nat \<Rightarrow> 'a ClassVoxel \<Rightarrow> bool" where
  "codec_ok top_n voxel =
     (counts voxel = [] \<or> (top_n \<le> length (counts voxel) \<and> length (counts voxel) \<le> 255))"

section \<open>Example data\<close>

definition three_submaps :: "collection_op list" where
  "three_submaps = [CreateSubmap 1 (1/10) 16, CreateSubmap 2 (1/10) 16, AddSubmap (Submap_new 3 (1/20) 8),
                    RemoveSubmap 2]"

definition collection_123 :: SubmapCollection where
  "collection_123 =
     \<lparr>submaps = [Submap_new 1 (1/10) 16, Submap_new 2 (1/10) 16, Submap_new 3 (1/20) 8],
      id_to_index = [1 \<mapsto> 0, 2 \<mapsto> 1, 3 \<mapsto> 2]\<rparr>"

definition voxel_A1 :: "u16 ClassVoxel" where
  "voxel_A1 = \<lparr>belongs_count = 3, foreign_count = 1, counts = [1, 7], current_index = 1, is_gt = False\<rparr>"

definition voxel_B1 :: "u16 ClassVoxel" where
  "voxel_B1 = \<lparr>belongs_count = 1, foreign_count = 1, counts = [4], current_index = 0, is_gt = False\<rparr>"

definition voxel_G1 :: "u16 ClassVoxel" where
  "voxel_G1 = \<lparr>belongs_count = 0, foreign_count = 5, counts = [2], current_index = 0, is_gt = True\<rparr>"

definition uvoxel_A1 :: "(u16, real) ClassUncertaintyVoxel" where
  "uvoxel_A1 = ClassVoxel.extend voxel_B1 (ClassUncertaintyVoxel.fields 1)"

definition uvoxel_B1 :: "(u16, real) ClassUncertaintyVoxel" where
  "uvoxel_B1 = ClassVoxel.extend voxel_B1 (ClassUncertaintyVoxel.fields 0)"

definition uvoxel_G1 :: "(u16, real) ClassUncertaintyVoxel" where
  "uvoxel_G1 = ClassVoxel.extend voxel_G1 (ClassUncertaintyVoxel.fields 2)"

definition scenario_voxel :: "u16 ClassVoxel" where
  "scenario_voxel =
     \<lparr>belongs_count = 10, foreign_count = 2, counts = [5, 0, 9, 3], current_index = 2, is_gt = False\<rparr>"

definition fresh_voxel :: "u16 ClassVoxel" where
  "fresh_voxel =
     \<lparr>belongs_count = 0, foreign_count = 0, counts = [], current_index = - 1, is_gt = False\<rparr>"

definition two_class_voxel :: "u16 ClassVoxel" where
  "two_class_voxel =
     \<lparr>belongs_count = 1, foreign_count = 0, counts = [1, 2], current_index = 1, is_gt = False\<rparr>"

definition voxel_300 :: "u16 ClassVoxel" where
  "voxel_300 =
     \<lparr>belongs_count = 300, foreign_count = 2, counts = [5, 0, 9, 3], current_index = 2, is_gt = False\<rparr>"

definition classless_voxel :: "u16 ClassVoxel" where
  "classless_voxel =
     \<lparr>belongs_count = 10, foreign_count = 2, counts = [], current_index = 7, is_gt = False\<rparr>"

definition voxel_256 :: "u16 ClassVoxel" where
  "voxel_256 =
     \<lparr>belongs_count = 10, foreign_count = 2, counts = replicate 256 7, current_index = 2, is_gt = False\<rparr>"

definition unset_index_voxel :: "u16 ClassVoxel" where
  "unset_index_voxel =
     \<lparr>belongs_count = 10, foreign_count = 2, counts = [5, 0, 9, 3], current_index = - 1, is_gt = False\<rparr>"

definition five_class_voxel :: "u16 ClassVoxel" where
  "five_class_voxel =
     \<lparr>belongs_count = 1, foreign_count = 0, counts = [5, 1, 9, 3, 4], current_index = 2, is_gt = True\<rparr>"

section \<open>Properties of the sub-map collection\<close>

lemma indexed_empty: "indexed empty_collection"
  by (simp add: indexed_def empty_collection_def)

lemma indexed_clear: "indexed (clear c)"
  by (simp add: indexed_def clear_def)

lemma indexed_absent:
  assumes "indexed c" "id_to_index c k = None"
  shows "k \<notin> getID ` set (submaps c)"
proof
  assume "k \<in> getID ` set (submaps c)"
  then obtain i where "i < length (submaps c)" "getID (submaps c ! i) = k"
    by (auto simp: in_set_conv_nth)
  with assms(1) have "id_to_index c k = Some i" by (simp add: indexed_def)
  with assms(2) show False by simp
qed

lemma indexed_addSubmap:
  assumes "indexed c" "id_to_index c (getID s) = None"
  shows "indexed (addSubmap s c)"
proof -
  have fresh: "getID s \<notin> getID ` set (submaps c)"
    using indexed_absent[OF assms] .
  have d: "distinct (map getID (submaps c @ [s]))"
    using assms(1) fresh by (simp add: indexed_def)
  have "id_to_index (addSubmap s c) k = Some i \<longleftrightarrow>
        i < length (submaps (addSubmap s c)) \<and> getID (submaps (addSubmap s c) ! i) = k" for k i
  proof (cases "i < length (submaps c)")
    case True
    then have "getID (submaps c ! i) \<noteq> getID s" using fresh by (metis image_eqI nth_mem)
    then show ?thesis using True assms(1) 
      by (auto simp: addSubmap_def Let_def indexed_def nth_append)
  next
    case False
    then show ?thesis using assms
      by (auto simp: addSubmap_def Let_def indexed_def nth_append less_Suc_eq)
  qed
  then show ?thesis using d by (simp add: indexed_def addSubmap_def Let_def)
qed

lemma createSubmap_addSubmap:
  "snd (createSubmap new_id vs vps c) = addSubmap (Submap_new new_id vs vps) c"
  by (simp add: createSubmap_def addSubmap_def Let_def)

lemma getID_Submap_new: "getID (Submap_new new_id vs vps) = new_id"
  by (simp add: Submap_new_def)

lemma nth_erase:
  "i < length xs - 1 \<Longrightarrow> p < length xs \<Longrightarrow>
   (take p xs @ drop (Suc p) xs) ! i = (if i < p then xs ! i else xs ! Suc i)"
  by (auto simp: nth_append min_def)

lemma distinct_erase:
  "distinct (map f xs) \<Longrightarrow> distinct (map f (take p xs @ drop (Suc p) xs))"
proof -
  assume d: "distinct (map f xs)"
  have "map f xs = map f (take p xs) @ map f (drop p xs)"
    by (metis append_take_drop_id map_append)
  moreover have "set (drop (Suc p) xs) \<subseteq> set (drop p xs)"
    by (metis Suc_n_not_le_n nat_le_linear set_drop_subset_set_drop)
  moreover have "distinct (map f (drop (Suc p) xs))"
    using d by (metis distinct_drop drop_map)
  ultimately show ?thesis using d
    by (auto simp: distinct_append[of "map f (take p xs)" "map f (drop p xs)"])
qed

lemma removeSubmap_present:
  assumes "id_to_index c k = Some p" "p < length (submaps c)"
  shows "\<exists>c'. removeSubmap k c = Inr (True, c') \<and>
     submaps c' = take p (submaps c) @ drop (Suc p) (submaps c) \<and>
     (\<forall>k'. id_to_index c' k' =
         map_option (\<lambda>i. if i > p then i - 1 else i) (if k' = k then None else id_to_index c k'))"
  using assms by (simp add: removeSubmap_def Let_def)

lemma removeSubmap_absent:
  "id_to_index c k = None \<Longrightarrow> removeSubmap k c = Inr (False, c)"
  by (simp add: removeSubmap_def)

lemma indexed_removeSubmap:
  assumes ix: "indexed c"
  shows "\<exists>b c'. removeSubmap k c = Inr (b, c') \<and> indexed c' \<and>
           dom (id_to_index c') = dom (id_to_index c) - {k}"
proof (cases "id_to_index c k")
  case None
  then show ?thesis using ix by (auto simp: removeSubmap_absent)
next
  case (Some p)
  define xs where "xs = submaps c"
  define m where "m = id_to_index c"
  have m_iff: "m k' = Some i \<longleftrightarrow> i < length xs \<and> getID (xs ! i) = k'" for k' i
    using ix by (simp add: indexed_def xs_def m_def)
  have dist: "distinct (map getID xs)" using ix by (simp add: indexed_def xs_def)
  have p: "p < length xs" "getID (xs ! p) = k" using Some m_iff by (auto simp: m_def)
  obtain c' where r: "removeSubmap k c = Inr (True, c')"
    and sub: "submaps c' = take p xs @ drop (Suc p) xs"
    and idx: "\<And>k'. id_to_index c' k' =
         map_option (\<lambda>i. if i > p then i - 1 else i) (if k' = k then None else m k')"
    using removeSubmap_present[OF Some] p(1) unfolding xs_def m_def by blast
  have len: "length (submaps c') = length xs - 1"
    using p(1) by (simp add: sub)
  have inj: "i < length xs \<Longrightarrow> j < length xs \<Longrightarrow> getID (xs ! i) = getID (xs ! j) \<Longrightarrow> i = j" for i j
    using dist by (auto simp: distinct_conv_nth)
  have "id_to_index c' k' = Some i \<longleftrightarrow> i < length (submaps c') \<and> getID (submaps c' ! i) = k'" for k' i
  proof
    assume "id_to_index c' k' = Some i"
    then have mo: "map_option (\<lambda>i. if i > p then i - 1 else i) (if k' = k then None else m k') = Some i"
      by (simp add: idx)
    then have "k' \<noteq> k" by (auto split: if_splits)
    with mo obtain j where j: "k' \<noteq> k" "m k' = Some j" "i = (if j > p then j - 1 else j)"
      by (cases "m k'") auto
    then have j2: "j < length xs" "getID (xs ! j) = k'" using m_iff by auto
    with j(1) p(2) have "j \<noteq> p" by auto
    then have "i < length xs - 1" using j(3) j2(1) p(1) by auto
    moreover from this have "submaps c' ! i = xs ! j"
      using nth_erase[of i xs p] p(1) j(3) \<open>j \<noteq> p\<close> by (auto simp: sub)
    ultimately show "i < length (submaps c') \<and> getID (submaps c' ! i) = k'"
      using len j2 by simp
  next
    assume a: "i < length (submaps c') \<and> getID (submaps c' ! i) = k'"
    define j where "j = (if i < p then i else Suc i)"
    have i: "i < length xs - 1" using a len by simp
    then have "submaps c' ! i = xs ! j"
      using nth_erase[of i xs p] p(1) by (simp add: sub j_def)
    then have gj: "getID (xs ! j) = k'" using a by simp
    have jl: "j < length xs" "j \<noteq> p" using i by (auto simp: j_def)
    then have mj: "m k' = Some j" using m_iff gj by simp
    have "k' \<noteq> k" using inj[OF jl(1) p(1)] jl(2) gj p(2) by auto
    moreover have "(if j > p then j - 1 else j) = i" by (auto simp: j_def)
    ultimately show "id_to_index c' k' = Some i" using mj by (simp add: idx)
  qed
  moreover have "distinct (map getID (submaps c'))"
    using distinct_erase[OF dist] by (simp add: sub)
  ultimately have "indexed c'" by (simp add: indexed_def)
  moreover have "dom (id_to_index c') = dom (id_to_index c) - {k}"
    by (auto simp: idx m_def dom_def split: if_splits)
  ultimately show ?thesis using r by blast
qed

lemma dom_addSubmap: "dom (id_to_index (addSubmap s c)) = insert (getID s) (dom (id_to_index c))"
  by (simp add: addSubmap_def Let_def)

lemma indexed_apply_op:
  assumes "indexed c" "fresh_op (dom (id_to_index c)) x"
  shows "\<exists>c'. apply_op x c = Inr c' \<and> indexed c' \<and>
           dom (id_to_index c') = live_after (dom (id_to_index c)) x"
proof (cases x)
  case (CreateSubmap new_id vs vps)
  then show ?thesis using assms indexed_addSubmap[of c "Submap_new new_id vs vps"]
    by (auto simp: createSubmap_addSubmap getID_Submap_new dom_addSubmap domIff)
next
  case (AddSubmap s)
  then show ?thesis using assms indexed_addSubmap[of c s]
    by (auto simp: dom_addSubmap domIff)
next
  case (RemoveSubmap k)
  then show ?thesis using indexed_removeSubmap[OF assms(1), of k] by auto
next
  case Clear
  then show ?thesis using indexed_clear[of c] by (simp add: clear_def)
qed

lemma indexed_run_ops:
  "indexed c \<Longrightarrow> fresh_ids (dom (id_to_index c)) ops \<Longrightarrow>
   \<exists>c'. run_ops ops c = Inr c' \<and> indexed c' \<and>
        dom (id_to_index c') = live_ids (dom (id_to_index c)) ops"
proof (induction ops arbitrary: c)
  case Nil
  then show ?case by simp
next
  case (Cons x xs)
  then obtain c1 where c1: "apply_op x c = Inr c1" "indexed c1"
      "dom (id_to_index c1) = live_after (dom (id_to_index c)) x"
    using indexed_apply_op[of c x] by auto
  then show ?case using Cons.IH[of c1] Cons.prems by auto
qed

lemma fresh_ids_take: "fresh_ids L ops \<Longrightarrow> fresh_ids L (take n ops)"
  by (induction ops arbitrary: L n) (auto simp: take_Cons split: nat.splits)

lemma indexed_dense:
  assumes "indexed c"
  shows "dense (dom (id_to_index c)) c"
proof -
  define xs where "xs = submaps c"
  define m where "m = id_to_index c"
  have m_iff: "m k' = Some i \<longleftrightarrow> i < length xs \<and> getID (xs ! i) = k'" for k' i
    using assms by (simp add: indexed_def xs_def m_def)
  have "inj_on (\<lambda>k. the (m k)) (dom m)"
  proof (rule inj_onI)
    fix k k' assume "k \<in> dom m" "k' \<in> dom m" "the (m k) = the (m k')"
    then obtain i where "m k = Some i" "m k' = Some i" by auto
    then show "k = k'" using m_iff by auto
  qed
  moreover have "(\<lambda>k. the (m k)) ` dom m = {0..<length xs}"
  proof (intro set_eqI iffI)
    fix i assume "i \<in> (\<lambda>k. the (m k)) ` dom m"
    then obtain k where "m k = Some i" by auto
    then show "i \<in> {0..<length xs}" using m_iff by simp
  next
    fix i assume "i \<in> {0..<length xs}"
    then have "m (getID (xs ! i)) = Some i" using m_iff by simp
    then show "i \<in> (\<lambda>k. the (m k)) ` dom m"
      by (metis domI image_eqI option.sel)
  qed
  moreover have "\<forall>k\<in>dom m. getID (xs ! the (m k)) = k"
  proof
    fix k assume "k \<in> dom m"
    then obtain i where i: "m k = Some i" by auto
    then have "getID (xs ! i) = k" using m_iff[of k i] by blast
    then show "getID (xs ! the (m k)) = k" by (simp add: i)
  qed
  ultimately show ?thesis
    by (simp add: dense_def bij_betw_def xs_def m_def)
qed

text \<open>
  C4 (collection density): for every sequence of \<open>createSubmap\<close>, \<open>addSubmap\<close>,
  \<open>removeSubmap\<close> and \<open>clear\<close> operations in which every created or added sub-map
  brings an identifier that is not live, started on the empty collection, every
  operation returns, and after each of them (after the first \<open>n\<close> operations, for every
  \<open>n\<close>) the index table is a bijection from the live identifiers onto the positions
  \<open>0, ..., n - 1\<close> of the storage, each identifier is mapped to the position that holds
  its sub-map, and \<open>submapIdExists\<close> is true exactly for the live identifiers.
\<close>

theorem collection_density:
  assumes "fresh_ids {} ops" "n \<le> length ops"
  shows "\<exists>c. run_ops (take n ops) empty_collection = Inr c \<and>
             dense (live_ids {} (take n ops)) c \<and>
             (\<forall>k. submapIdExists k c \<longleftrightarrow> k \<in> live_ids {} (take n ops))"
proof -
  have e: "dom (id_to_index empty_collection) = {}" by (simp add: empty_collection_def)
  have "fresh_ids (dom (id_to_index empty_collection)) (take n ops)"
    using assms(1) fresh_ids_take e by simp
  from indexed_run_ops[OF indexed_empty this] obtain c where
    c: "run_ops (take n ops) empty_collection = Inr c" "indexed c"
       "dom (id_to_index c) = live_ids {} (take n ops)"
    using e by auto
  have "\<forall>k. submapIdExists k c \<longleftrightarrow> k \<in> live_ids {} (take n ops)"
    using c(3) by (auto simp: submapIdExists_def domIff)
  then show ?thesis using c indexed_dense[OF c(2)] by auto
qed

text \<open>
  The scenario of the specification: sub-maps 1, 2 and 3 are stored, 2 is removed;
  then 3 is at position 1 and 2 does not exist.
\<close>

theorem collection_density_witness:
  "fresh_ids {} three_submaps \<and> 4 \<le> length three_submaps \<and>
   (\<exists>c. run_ops (take 4 three_submaps) empty_collection = Inr c \<and>
        dense {1, 3} c \<and> \<not> submapIdExists 2 c \<and> submapIdExists 3 c \<and>
        id_to_index c 1 = Some 0 \<and> id_to_index c 3 = Some 1 \<and>
        map getID (submaps c) = [1, 3])"
proof -
  have f: "fresh_ids {} three_submaps"
    by (simp add: three_submaps_def Submap_new_def)
  have l: "4 \<le> length three_submaps"
    by (simp add: three_submaps_def)
  have live: "live_ids {} (take 4 three_submaps) = {1, 3}"
    by (auto simp: three_submaps_def Submap_new_def)
  from collection_density[OF f l] obtain c where
    c: "run_ops (take 4 three_submaps) empty_collection = Inr c"
       "dense (live_ids {} (take 4 three_submaps)) c"
       "\<forall>k. submapIdExists k c \<longleftrightarrow> k \<in> live_ids {} (take 4 three_submaps)"
    by blast
  have r: "\<exists>c'. run_ops (take 4 three_submaps) empty_collection = Inr c' \<and>
            id_to_index c' 1 = Some 0 \<and> id_to_index c' 3 = Some 1 \<and> map getID (submaps c') = [1, 3]"
    by (simp add: three_submaps_def empty_collection_def createSubmap_def addSubmap_def
          removeSubmap_def Submap_new_def Let_def)
  with c(1) have "id_to_index c 1 = Some 0 \<and> id_to_index c 3 = Some 1 \<and> map getID (submaps c) = [1, 3]"
    by auto
  moreover have "\<not> submapIdExists 2 c" "submapIdExists 3 c" using c(3) live by auto
  ultimately show ?thesis using f l c(1) c(2) live by auto
qed

text \<open>
  C7 (\<open>removeSubmap\<close>): for an identifier that the index table does not hold,
  \<open>removeSubmap\<close> returns false and the collection is unchanged. For an identifier
  held at a position \<open>p\<close> of the storage it returns true, the sub-map at \<open>p\<close> is
  erased, the identifier is no longer mapped, and of the other identifiers those
  mapped to a position above \<open>p\<close> are mapped one position lower and the rest are
  mapped as before.
\<close>

theorem removeSubmap_contract:
  "(id_to_index c k = None \<longrightarrow> removeSubmap k c = Inr (False, c)) \<and>
   (\<forall>p. id_to_index c k = Some p \<and> p < length (submaps c) \<longrightarrow>
      (\<exists>c'. removeSubmap k c = Inr (True, c') \<and>
            submaps c' = take p (submaps c) @ drop (Suc p) (submaps c) \<and>
            id_to_index c' k = None \<and>
            (\<forall>k'. k' \<noteq> k \<longrightarrow>
               id_to_index c' k' = map_option (\<lambda>i. if i > p then i - 1 else i) (id_to_index c k'))))"
proof (intro conjI allI impI)
  assume "id_to_index c k = None"
  then show "removeSubmap k c = Inr (False, c)" by (rule removeSubmap_absent)
next
  fix p assume "id_to_index c k = Some p \<and> p < length (submaps c)"
  then obtain c' where "removeSubmap k c = Inr (True, c')"
     "submaps c' = take p (submaps c) @ drop (Suc p) (submaps c)"
     "\<forall>k'. id_to_index c' k' =
         map_option (\<lambda>i. if i > p then i - 1 else i) (if k' = k then None else id_to_index c k')"
    using removeSubmap_present[of c k p] by blast
  then show "\<exists>c'. removeSubmap k c = Inr (True, c') \<and>
            submaps c' = take p (submaps c) @ drop (Suc p) (submaps c) \<and>
            id_to_index c' k = None \<and>
            (\<forall>k'. k' \<noteq> k \<longrightarrow>
               id_to_index c' k' = map_option (\<lambda>i. if i > p then i - 1 else i) (id_to_index c k'))"
    by (intro exI[of _ c']) simp
qed

theorem removeSubmap_contract_witness:
  "id_to_index collection_123 5 = None \<and>
   removeSubmap 5 collection_123 = Inr (False, collection_123) \<and>
   id_to_index collection_123 2 = Some 1 \<and> 1 < length (submaps collection_123) \<and>
   (\<exists>c'. removeSubmap 2 collection_123 = Inr (True, c') \<and>
      submaps c' = [Submap_new 1 (1/10) 16, Submap_new 3 (1/20) 8] \<and>
      id_to_index c' 2 = None \<and> id_to_index c' 1 = Some 0 \<and> id_to_index c' 3 = Some 1)"
proof -
  have a: "id_to_index collection_123 5 = None" by (simp add: collection_123_def)
  have b: "id_to_index collection_123 2 = Some 1 \<and> 1 < length (submaps collection_123)"
    by (simp add: collection_123_def)
  from removeSubmap_contract[of collection_123 5] a
  have n: "removeSubmap 5 collection_123 = Inr (False, collection_123)" by blast
  from removeSubmap_contract[of collection_123 2] b obtain c' where
    c': "removeSubmap 2 collection_123 = Inr (True, c')"
        "submaps c' = take 1 (submaps collection_123) @ drop (Suc 1) (submaps collection_123)"
        "id_to_index c' 2 = None"
        "\<forall>k'. k' \<noteq> 2 \<longrightarrow> id_to_index c' k' =
            map_option (\<lambda>i. if i > 1 then i - 1 else i) (id_to_index collection_123 k')"
    by blast
  have "submaps c' = [Submap_new 1 (1/10) 16, Submap_new 3 (1/20) 8]"
    using c'(2) by (simp add: collection_123_def)
  moreover have "id_to_index c' 1 = Some 0" "id_to_index c' 3 = Some 1"
    using c'(4) by (simp_all add: collection_123_def)
  ultimately show ?thesis using a b n c'(1) c'(3) by blast
qed


section \<open>Properties of voxel fusion\<close>

lemma is_gt_merge:
  "is_gt (mergeVoxelAIntoVoxelB prob A B) = (is_gt B \<or> is_gt A)"
  by (simp add: mergeVoxelAIntoVoxelB_def Let_def)

lemma is_gt_merge_uncertainty:
  "is_gt (mergeVoxelAIntoVoxelB_uncertainty prob A B) = (is_gt B \<or> is_gt A)"
  by (simp add: mergeVoxelAIntoVoxelB_uncertainty_def Let_def is_gt_merge ClassVoxel.truncate_def)

lemma is_gt_foldl_merge:
  "is_gt B \<Longrightarrow> is_gt (foldl (\<lambda>b a. mergeVoxelAIntoVoxelB prob a b) B As)"
  by (induction As arbitrary: B) (simp_all add: is_gt_merge)

lemma is_gt_foldl_merge_uncertainty:
  "is_gt B \<Longrightarrow> is_gt (foldl (\<lambda>b a. mergeVoxelAIntoVoxelB_uncertainty prob a b) B As)"
  by (induction As arbitrary: B) (simp_all add: is_gt_merge_uncertainty)

text \<open>
  C2 (fusion precedence): \<open>mergeVoxelAIntoVoxelB\<close> gives \<open>B\<close> the \<open>current_index\<close>,
  \<open>foreign_count\<close>, \<open>belongs_count\<close> and \<open>counts\<close> of \<open>A\<close> when \<open>A\<close> is ground truth, or
  when the belonging probability of \<open>A\<close> is strictly greater than that of \<open>B\<close> and \<open>B\<close>
  is not ground truth; in every other case \<open>B\<close> keeps its four fields.
\<close>

theorem fusion_precedence:
  fixes A :: "'c ClassVoxel" and B :: "('c, 'z) ClassVoxel_scheme" and prob :: "'c ClassVoxel \<Rightarrow> 'p::ord"
  defines "adopt \<equiv> is_gt A \<or> (prob A > prob (ClassVoxel.truncate B) \<and> \<not> is_gt B)"
  defines "B' \<equiv> mergeVoxelAIntoVoxelB prob A B"
  shows "current_index B' = (if adopt then current_index A else current_index B) \<and>
         foreign_count B' = (if adopt then foreign_count A else foreign_count B) \<and>
         belongs_count B' = (if adopt then belongs_count A else belongs_count B) \<and>
         counts B' = (if adopt then counts A else counts B)"
  by (simp add: mergeVoxelAIntoVoxelB_def Let_def adopt_def B'_def)

lemma prob_A1: "classVoxelBelongingProbability voxel_A1 = 3 / 4"
  by (simp add: classVoxelBelongingProbability_def voxel_A1_def)
lemma prob_B1: "classVoxelBelongingProbability voxel_B1 = 1 / 2"
  by (simp add: classVoxelBelongingProbability_def voxel_B1_def)

theorem fusion_precedence_witness:
  "counts (mergeVoxelAIntoVoxelB classVoxelBelongingProbability voxel_A1 voxel_B1) = [1, 7] \<and>
   belongs_count (mergeVoxelAIntoVoxelB classVoxelBelongingProbability voxel_A1 voxel_B1) = 3 \<and>
   counts (mergeVoxelAIntoVoxelB classVoxelBelongingProbability voxel_B1 voxel_A1) = [1, 7] \<and>
   counts (mergeVoxelAIntoVoxelB classVoxelBelongingProbability voxel_G1 voxel_A1) = [2]"
  using fusion_precedence[of classVoxelBelongingProbability voxel_A1 voxel_B1]
        fusion_precedence[of classVoxelBelongingProbability voxel_B1 voxel_A1]
        fusion_precedence[of classVoxelBelongingProbability voxel_G1 voxel_A1]
  by (simp add: classVoxelBelongingProbability_def ClassVoxel.truncate_def
        voxel_A1_def voxel_B1_def voxel_G1_def)

text \<open>
  C6 (sticky ground truth): for both voxel variants, after \<open>mergeVoxelAIntoVoxelB\<close>
  the flag \<open>is_gt\<close> of \<open>B\<close> is the disjunction of its former value and the flag of \<open>A\<close>;
  once the flag of \<open>B\<close> is set, it stays set through every sequence of fusions into
  \<open>B\<close> (in particular of voxels that are not ground truth).
\<close>

theorem sticky_ground_truth:
  fixes A B :: "'c ClassVoxel" and Au Bu :: "('c, 'u::{numeral,inverse}) ClassUncertaintyVoxel"
    and prob :: "'c ClassVoxel \<Rightarrow> 'p::ord"
  shows "is_gt (mergeVoxelAIntoVoxelB prob A B) = (is_gt B \<or> is_gt A) \<and>
         is_gt (mergeVoxelAIntoVoxelB_uncertainty prob Au Bu) = (is_gt Bu \<or> is_gt Au) \<and>
         (is_gt B \<longrightarrow> is_gt (foldl (\<lambda>b a. mergeVoxelAIntoVoxelB prob a b) B As)) \<and>
         (is_gt Bu \<longrightarrow> is_gt (foldl (\<lambda>b a. mergeVoxelAIntoVoxelB_uncertainty prob a b) Bu Aus))"
  by (simp add: is_gt_merge is_gt_merge_uncertainty is_gt_foldl_merge is_gt_foldl_merge_uncertainty)

theorem sticky_ground_truth_witness:
  "is_gt voxel_G1 \<and> \<not> is_gt voxel_A1 \<and> \<not> is_gt voxel_B1 \<and>
   is_gt (mergeVoxelAIntoVoxelB classVoxelBelongingProbability voxel_G1 voxel_A1) \<and>
   is_gt (foldl (\<lambda>b a. mergeVoxelAIntoVoxelB classVoxelBelongingProbability a b) voxel_G1
            [voxel_A1, voxel_B1]) \<and>
   is_gt uvoxel_G1 \<and> \<not> is_gt uvoxel_A1 \<and> \<not> is_gt uvoxel_B1 \<and>
   is_gt (mergeVoxelAIntoVoxelB_uncertainty classVoxelBelongingProbability uvoxel_G1 uvoxel_A1) \<and>
   is_gt (foldl (\<lambda>b a. mergeVoxelAIntoVoxelB_uncertainty classVoxelBelongingProbability a b) uvoxel_G1
            [uvoxel_A1, uvoxel_B1])"
proof -
  have g: "is_gt voxel_G1" "\<not> is_gt voxel_A1" "\<not> is_gt voxel_B1"
          "is_gt uvoxel_G1" "\<not> is_gt uvoxel_A1" "\<not> is_gt uvoxel_B1"
    by (simp_all add: voxel_G1_def voxel_A1_def voxel_B1_def uvoxel_G1_def uvoxel_A1_def
          uvoxel_B1_def ClassVoxel.extend_def)
  from sticky_ground_truth[of classVoxelBelongingProbability voxel_G1 voxel_A1 uvoxel_G1 uvoxel_A1
         "[]" "[]"] g
  have a: "is_gt (mergeVoxelAIntoVoxelB classVoxelBelongingProbability voxel_G1 voxel_A1)"
          "is_gt (mergeVoxelAIntoVoxelB_uncertainty classVoxelBelongingProbability uvoxel_G1 uvoxel_A1)"
    by simp_all
  from sticky_ground_truth[of classVoxelBelongingProbability voxel_A1 voxel_G1 uvoxel_A1 uvoxel_G1
         "[voxel_A1, voxel_B1]" "[uvoxel_A1, uvoxel_B1]"] g
  have b: "is_gt (foldl (\<lambda>b a. mergeVoxelAIntoVoxelB classVoxelBelongingProbability a b) voxel_G1
            [voxel_A1, voxel_B1])"
          "is_gt (foldl (\<lambda>b a. mergeVoxelAIntoVoxelB_uncertainty classVoxelBelongingProbability a b) uvoxel_G1
            [uvoxel_A1, uvoxel_B1])"
    by blast+
  show ?thesis using g a b by blast
qed

text \<open>
  C8 (uncertainty fusion): the merge of two \<open>ClassUncertaintyVoxel\<close>s leaves the
  \<open>ClassVoxel\<close> part of \<open>B\<close> as the base merge does, and replaces \<open>uncertainty_value\<close>
  of \<open>B\<close> by the mean \<open>(uncertainty_value B + uncertainty_value A) / 2\<close> exactly when
  \<open>B\<close> is not ground truth after the base merge, leaving it unchanged otherwise. There
  are voxels for which fusing \<open>A\<close> into \<open>B\<close> twice gives another \<open>uncertainty_value\<close>
  than fusing it once.
\<close>

theorem uncertainty_fusion:
  fixes A B :: "('c, 'u::{numeral,inverse}) ClassUncertaintyVoxel" and prob :: "'c ClassVoxel \<Rightarrow> 'p::ord"
  defines "B1 \<equiv> mergeVoxelAIntoVoxelB prob (ClassVoxel.truncate A) B"
  defines "B' \<equiv> mergeVoxelAIntoVoxelB_uncertainty prob A B"
  shows "ClassVoxel.truncate B' = ClassVoxel.truncate B1 \<and>
         uncertainty_value B' =
           (if \<not> is_gt B1 then (uncertainty_value B + uncertainty_value A) / 2
            else uncertainty_value B) \<and>
         (\<exists>(A0 :: (u16, real) ClassUncertaintyVoxel) B0.
            uncertainty_value (mergeVoxelAIntoVoxelB_uncertainty classVoxelBelongingProbability A0
               (mergeVoxelAIntoVoxelB_uncertainty classVoxelBelongingProbability A0 B0)) \<noteq>
            uncertainty_value (mergeVoxelAIntoVoxelB_uncertainty classVoxelBelongingProbability A0 B0))"
proof -
  have u1: "uncertainty_value B1 = uncertainty_value B"
    by (simp add: B1_def mergeVoxelAIntoVoxelB_def Let_def)
  have a: "ClassVoxel.truncate B' = ClassVoxel.truncate B1"
    by (simp add: B'_def B1_def mergeVoxelAIntoVoxelB_uncertainty_def Let_def ClassVoxel.truncate_def)
  have b: "uncertainty_value B' =
           (if \<not> is_gt B1 then (uncertainty_value B + uncertainty_value A) / 2
            else uncertainty_value B)"
    using u1 by (simp add: B'_def B1_def mergeVoxelAIntoVoxelB_uncertainty_def Let_def)
  have "uncertainty_value (mergeVoxelAIntoVoxelB_uncertainty classVoxelBelongingProbability uvoxel_A1
               (mergeVoxelAIntoVoxelB_uncertainty classVoxelBelongingProbability uvoxel_A1 uvoxel_B1)) \<noteq>
            uncertainty_value (mergeVoxelAIntoVoxelB_uncertainty classVoxelBelongingProbability uvoxel_A1 uvoxel_B1)"
    by (simp add: mergeVoxelAIntoVoxelB_uncertainty_def mergeVoxelAIntoVoxelB_def Let_def
          uvoxel_A1_def uvoxel_B1_def voxel_B1_def ClassVoxel.truncate_def ClassVoxel.extend_def
          ClassUncertaintyVoxel.fields_def)
  then show ?thesis using a b by blast
qed

theorem uncertainty_fusion_witness:
  "\<not> is_gt uvoxel_B1 \<and> \<not> is_gt uvoxel_A1 \<and>
   uncertainty_value (mergeVoxelAIntoVoxelB_uncertainty classVoxelBelongingProbability uvoxel_A1 uvoxel_B1) = 1 / 2 \<and>
   uncertainty_value (mergeVoxelAIntoVoxelB_uncertainty classVoxelBelongingProbability uvoxel_A1
      (mergeVoxelAIntoVoxelB_uncertainty classVoxelBelongingProbability uvoxel_A1 uvoxel_B1)) = 3 / 4"
  using uncertainty_fusion[of classVoxelBelongingProbability uvoxel_A1 uvoxel_B1]
        uncertainty_fusion[of classVoxelBelongingProbability uvoxel_A1
           "mergeVoxelAIntoVoxelB_uncertainty classVoxelBelongingProbability uvoxel_A1 uvoxel_B1"]
  by (simp add: is_gt_merge is_gt_merge_uncertainty uvoxel_A1_def uvoxel_B1_def voxel_B1_def
        ClassVoxel.truncate_def ClassVoxel.extend_def ClassUncertaintyVoxel.fields_def)


section \<open>Packing entries into words and reading them back\<close>

lemma pack_word_append:
  "pack_word bits (xs @ ys) = pack_word bits xs + push_bit (length xs * bits) (pack_word bits ys)"
  by (induction xs) (simp_all add: push_bit_add push_bit_push_bit add.commute add.assoc)

lemma pack_word_snoc:
  "pack_word bits (xs @ [d]) = pack_word bits xs + push_bit (length xs * bits) (ucast d)"
  by (simp add: pack_word_append)

lemma bit_pack_word:
  fixes ds :: "'a::len word list"
  assumes "LENGTH('a) \<le> bits" "0 < bits"
  shows "bit (pack_word bits ds) n \<longleftrightarrow>
           n < 32 \<and> n div bits < length ds \<and> bit (ds ! (n div bits)) (n mod bits)"
proof (induction ds arbitrary: n)
  case Nil
  then show ?case by simp
next
  case (Cons d ds)
  have disj: "\<not> bit (ucast d :: u32) k \<or> \<not> bit (push_bit bits (pack_word bits ds)) k" for k
    using assms(1) by (auto simp: bit_simps dest: bit_imp_le_length)
  have sum: "bit (pack_word bits (d # ds)) n \<longleftrightarrow>
             bit (ucast d :: u32) n \<or> bit (push_bit bits (pack_word bits ds)) n"
    using bit_disjunctive_add_iff[OF disj] by simp
  show ?case
  proof (cases "n < bits")
    case True
    then have "n div bits = 0" "n mod bits = n" by simp_all
    moreover have "\<not> bit (push_bit bits (pack_word bits ds)) n"
      using True by (simp add: bit_simps)
    moreover have "bit (ucast d :: u32) n \<longleftrightarrow> n < 32 \<and> bit d n"
      by (auto simp: bit_simps dest: bit_imp_le_length)
    ultimately show ?thesis using sum by simp
  next
    case False
    then have ge: "bits \<le> n" by simp
    then have dv: "n div bits = Suc ((n - bits) div bits)" "n mod bits = (n - bits) mod bits"
      using assms(2) by (simp_all add: le_div_geq le_mod_geq)
    have "\<not> bit (ucast d :: u32) n"
      using False assms(1) by (auto simp: bit_simps dest: bit_imp_le_length)
    moreover have "bit (push_bit bits (pack_word bits ds)) n \<longleftrightarrow>
                   n < 32 \<and> bit (pack_word bits ds) (n - bits)"
      using ge by (auto simp: bit_simps)
    ultimately show ?thesis using sum Cons.IH[of "n - bits"] dv ge by auto
  qed
qed

lemma read_slot:
  fixes c :: "'a::len word list"
  assumes "LENGTH('a) = bits" "k < length c" "length c * bits \<le> 32"
  shows "(ucast (drop_bit (k * bits) (pack_word bits c AND push_bit (k * bits) mask32)) :: 'a word) = c ! k"
proof (rule bit_word_eqI)
  fix n assume n: "n < LENGTH('a)"
  have pos: "0 < bits" using assms(1) by (metis len_gt_0)
  have "k * bits + n < Suc k * bits" using n assms(1) by simp
  also have "\<dots> \<le> length c * bits" using assms(2) by (intro mult_le_mono1) simp
  finally have lt: "k * bits + n < 32" using assms(3) by simp
  have dv: "(k * bits + n) div bits = k" "(k * bits + n) mod bits = n"
    using n assms(1) by simp_all
  have "bit (ucast (drop_bit (k * bits) (pack_word bits c AND push_bit (k * bits) mask32)) :: 'a word) n
        \<longleftrightarrow> bit (pack_word bits c) (k * bits + n)"
    using n lt by (simp add: bit_simps mask32_def)
  also have "\<dots> \<longleftrightarrow> bit (c ! k) n"
    using bit_pack_word[of bits c "k * bits + n"] assms(1) assms(2) pos lt dv by simp
  finally show "bit (ucast (drop_bit (k * bits) (pack_word bits c AND push_bit (k * bits) mask32)) :: 'a word) n
        \<longleftrightarrow> bit (c ! k) n" .
qed

lemma pack_words_Nil: "pack_words bits [] = []"
  by (subst pack_words.simps) simp

lemma pack_words_step:
  "ds \<noteq> [] \<Longrightarrow> 0 < 32 div bits \<Longrightarrow>
   pack_words bits ds = pack_word bits (take (32 div bits) ds) # pack_words bits (drop (32 div bits) ds)"
  by (subst pack_words.simps) simp

lemma length_pack_words:
  "0 < 32 div bits \<Longrightarrow>
   length (pack_words bits ds) = (length ds + 32 div bits - 1) div (32 div bits)"
proof (induction bits ds rule: pack_words.induct)
  case (1 bits ds)
  define p where "p = 32 div bits"
  have p: "0 < p" using "1.prems" by (simp add: p_def)
  show ?case
  proof (cases "ds = []")
    case True
    then show ?thesis using p by (simp add: pack_words_Nil p_def)
  next
    case False
    then have ih: "length (pack_words bits (drop p ds)) = (length ds - p + p - 1) div p"
      using "1.IH" "1.prems" by (simp add: p_def)
    have "length (pack_words bits ds) = Suc ((length ds - p + p - 1) div p)"
      using pack_words_step[OF False "1.prems"] ih by (simp add: p_def)
    also have "\<dots> = (length ds + p - 1) div p"
    proof (cases "p \<le> length ds")
      case True
      then have "length ds + p - 1 = (length ds - 1) + p" using p by simp
      then show ?thesis using True p by (simp add: le_div_geq)
    next
      case False
      from \<open>ds \<noteq> []\<close> obtain m where m: "length ds = Suc m" by (cases ds) auto
      with False have "length ds + p - 1 = p + (length ds - 1)" "length ds - 1 < p" by simp_all
      then have "(length ds + p - 1) div p = 1" by (simp add: le_div_geq)
      moreover have "length ds - p + p - 1 = p - 1" using False by simp
      moreover have "(p - 1) div p = 0" using p by simp
      ultimately show ?thesis by simp
    qed
    finally show ?thesis by (simp add: p_def)
  qed
qed

lemma pack_words_slot:
  fixes ds :: "'a::len word list"
  assumes "LENGTH('a) = bits" "bits \<le> 32"
  shows "j < length ds \<Longrightarrow>
         j div (32 div bits) < length (pack_words bits ds) \<and>
         (ucast (drop_bit (j mod (32 div bits) * bits)
                   (pack_words bits ds ! (j div (32 div bits)) AND
                    push_bit (j mod (32 div bits) * bits) mask32)) :: 'a word) = ds ! j"
proof (induction "length ds" arbitrary: ds j rule: less_induct)
  case less
  define p where "p = 32 div bits"
  have pos: "0 < bits" using assms(1) by (metis len_gt_0)
  have p: "0 < p" using pos assms(2) by (simp add: p_def div_greater_zero_iff)
  have pb: "p * bits \<le> 32" by (simp add: p_def)
  have ne: "ds \<noteq> []" using less.prems by auto
  have step: "pack_words bits ds = pack_word bits (take p ds) # pack_words bits (drop p ds)"
    using pack_words_step[OF ne] p by (simp add: p_def)
  show ?case
  proof (cases "j < p")
    case True
    then have j: "j div p = 0" "j mod p = j" by simp_all
    have k: "j < length (take p ds)" using True less.prems by simp
    have "length (take p ds) \<le> p" by simp
    then have "length (take p ds) * bits \<le> p * bits" by (rule mult_le_mono1)
    then have "length (take p ds) * bits \<le> 32" using pb by (rule le_trans)
    from read_slot[OF assms(1) k this] True
    show ?thesis using j step by (simp add: p_def)
  next
    case False
    then have ge: "p \<le> j" by simp
    then have j: "j div p = Suc ((j - p) div p)" "j mod p = (j - p) mod p"
      using p by (simp_all add: le_div_geq le_mod_geq)
    have shorter: "length (drop p ds) < length ds" using p ne by simp
    have jj: "j - p < length (drop p ds)" using ge less.prems by simp
    have "(drop p ds) ! (j - p) = ds ! j" using ge less.prems by simp
    with less.hyps[OF shorter jj] show ?thesis using j step by (simp add: p_def)
  qed
qed

lemma convert_loop_within:
  assumes "0 < 32 div bits"
  shows "i mod (32 div bits) = length cur \<Longrightarrow> length cur + length c \<le> 32 div bits \<Longrightarrow>
    convert_loop bits (c @ rest) i saved (pack_word bits cur) out =
      (if c \<noteq> [] \<and> length cur + length c = 32 div bits
       then convert_loop bits rest (i + length c) (saved + 32 div bits) 0
              (out @ [pack_word bits (cur @ c)])
       else convert_loop bits rest (i + length c) saved (pack_word bits (cur @ c)) out)"
proof (induction c arbitrary: cur i)
  case Nil
  then show ?case by simp
next
  case (Cons d c)
  define p where "p = 32 div bits"
  have p: "0 < p" using assms by (simp add: p_def)
  have lt: "length cur < p" using Cons.prems(2) by (simp add: p_def)
  have byte: "i mod p = length cur" using Cons.prems(1) by (simp add: p_def)
  show ?case
  proof (cases "length cur = p - 1")
    case True
    have "length cur + length (d # c) \<le> p" using Cons.prems(2) by (simp add: p_def)
    with True p have "length c = 0" by simp
    then have "c = []" by simp
    then show ?thesis using True byte p by (simp add: p_def[symmetric] Let_def pack_word_snoc)
  next
    case False
    then have lt2: "Suc (length cur) < p" using lt by simp
    have nxt: "Suc i mod p = length (cur @ [d])"
      using byte lt2 by (simp add: mod_Suc)
    have le: "length (cur @ [d]) + length c \<le> p" using Cons.prems(2) by (simp add: p_def)
    have "convert_loop bits ((d # c) @ rest) i saved (pack_word bits cur) out =
          convert_loop bits (c @ rest) (Suc i) saved (pack_word bits (cur @ [d])) out"
      using False byte by (simp add: p_def[symmetric] Let_def pack_word_snoc)
    also have "\<dots> = (if c \<noteq> [] \<and> length (cur @ [d]) + length c = p
       then convert_loop bits rest (Suc i + length c) (saved + p) 0
              (out @ [pack_word bits ((cur @ [d]) @ c)])
       else convert_loop bits rest (Suc i + length c) saved (pack_word bits ((cur @ [d]) @ c)) out)"
      using Cons.IH[of "Suc i" "cur @ [d]"] nxt le by (simp add: p_def)
    finally show ?thesis using lt2 by (auto simp: p_def)
  qed
qed

lemma convert_loop_pack_words:
  assumes "0 < 32 div bits"
  shows "i mod (32 div bits) = 0 \<Longrightarrow>
    (case convert_loop bits ds i i 0 out of
       (saved_count, data_int, out1) \<Rightarrow>
         (if saved_count < i + length ds then out1 @ [data_int] else out1)) =
    out @ pack_words bits ds"
proof (induction "length ds" arbitrary: ds i out rule: less_induct)
  case less
  define p where "p = 32 div bits"
  have p: "0 < p" using assms by (simp add: p_def)
  show ?case
  proof (cases "ds = []")
    case True
    then show ?thesis by (simp add: pack_words_Nil)
  next
    case False
    have step: "pack_words bits ds = pack_word bits (take p ds) # pack_words bits (drop p ds)"
      using pack_words_step[OF False] p by (simp add: p_def)
    have im: "i mod (32 div bits) = length ([]::'a word list)" using less.prems by simp
    have lp: "length ([]::'a word list) + length (take p ds) \<le> 32 div bits" by (simp add: p_def)
    have w: "convert_loop bits ds i i 0 out =
      (if length (take p ds) = p
       then convert_loop bits (drop p ds) (i + length (take p ds)) (i + p) 0
              (out @ [pack_word bits (take p ds)])
       else convert_loop bits (drop p ds) (i + length (take p ds)) i (pack_word bits (take p ds)) out)"
      using convert_loop_within[OF assms im lp, of "drop p ds" i out] False p
      unfolding p_def[symmetric] by simp
    show ?thesis
    proof (cases "p \<le> length ds")
      case True
      then have l: "length (take p ds) = p" by simp
      have shorter: "length (drop p ds) < length ds" using p False by simp
      have m: "(i + p) mod p = 0" using less.prems by (simp add: p_def)
      have "convert_loop bits ds i i 0 out =
            convert_loop bits (drop p ds) (i + p) (i + p) 0 (out @ [pack_word bits (take p ds)])"
        using w l p False by simp
      moreover have "i + p + length (drop p ds) = i + length ds" using True by simp
      ultimately show ?thesis
        using less.hyps[OF shorter, of "i + p" "out @ [pack_word bits (take p ds)]"] m step
        by (simp add: p_def)
    next
      case False
      then have l: "take p ds = ds" "drop p ds = []" by simp_all
      have "convert_loop bits ds i i 0 out = (i, pack_word bits ds, out)"
        using w l False by simp
      then show ?thesis using \<open>ds \<noteq> []\<close> step l by (simp add: pack_words_Nil)
    qed
  qed
qed

lemma convert_vector_to_uint32_pack_words:
  assumes "0 < bits" "bits \<le> 32"
  shows "convert_vector_to_uint32 ds out bits = Inr (out @ pack_words bits ds)"
proof -
  have p: "0 < 32 div bits" using assms by (simp add: div_greater_zero_iff)
  obtain s w o1 where r: "convert_loop bits ds 0 0 0 out = (s, w, o1)"
    by (metis prod_cases3)
  have "(if s < length ds then o1 @ [w] else o1) = out @ pack_words bits ds"
    using convert_loop_pack_words[OF p, of 0 ds out] r by simp
  then show ?thesis using assms p r
    by (auto simp: convert_vector_to_uint32_def split: if_splits)
qed

section \<open>The read loops on packed words\<close>

lemma vector_at_middle:
  "k < length ws \<Longrightarrow> vector_at (pre @ ws @ post) (length pre + k) = Inr (ws ! k)"
  by (simp add: vector_at_def nth_append)

lemma read_indices_packed:
  fixes ds :: "u8 list"
  assumes "\<forall>i\<in>set js. i < length ds"
  shows "read_indices (pre @ pack_words 8 ds @ post) (length pre) js acc =
         Inr (acc @ map ((!) ds) js)"
  using assms
proof (induction js arbitrary: acc)
  case Nil
  then show ?case by simp
next
  case (Cons i js)
  then have i: "i < length ds" by simp
  have s: "i div 4 < length (pack_words 8 ds) \<and>
           (ucast (drop_bit (i mod 4 * 8) (pack_words 8 ds ! (i div 4) AND
               push_bit (i mod 4 * 8) mask32)) :: u8) = ds ! i"
    using pack_words_slot[of 8 i ds] i by simp
  then have "vector_at (pre @ pack_words 8 ds @ post) (length pre + i div 4) =
             Inr (pack_words 8 ds ! (i div 4))"
    by (simp add: vector_at_middle)
  then show ?case using s Cons by (simp add: Let_def)
qed

lemma read_counts_packed:
  fixes ds :: "'c::len word list"
  assumes "LENGTH('c) = csb" "csb \<le> 32" "\<forall>i\<in>set js. i < length ds"
  shows "read_counts csb (pre @ pack_words csb ds @ post) (length pre) js acc =
         Inr (acc @ map ((!) ds) js)"
  using assms(3)
proof (induction js arbitrary: acc)
  case Nil
  then show ?case by simp
next
  case (Cons i js)
  then have i: "i < length ds" by simp
  have s: "i div (32 div csb) < length (pack_words csb ds) \<and>
           (ucast (drop_bit (i mod (32 div csb) * csb) (pack_words csb ds ! (i div (32 div csb)) AND
               push_bit (i mod (32 div csb) * csb) mask32)) :: 'c word) = ds ! i"
    using pack_words_slot[OF assms(1) assms(2) i] .
  then have "vector_at (pre @ pack_words csb ds @ post) (length pre + i div (32 div csb)) =
             Inr (pack_words csb ds ! (i div (32 div csb)))"
    by (simp add: vector_at_middle)
  then show ?case using s Cons by (simp add: Let_def)
qed

lemma map_nth_upt: "map ((!) ds) [0..<length ds] = ds"
  by (rule map_nth)

section \<open>The priority queue and the selection of the top classes\<close>

lemma pq_top_Nil: "pq_top [] = Inl UndefinedBehaviour"
  by (simp add: pq_top_def)

lemma pq_top_Max: "q \<noteq> [] \<Longrightarrow> pq_top q = Inr (Max (set q))"
  by (cases q) (simp_all add: pq_top_def Max.set_eq_fold[symmetric])

lemma pop_top_n_short:
  "length q < k \<Longrightarrow> pop_top_n k q I K = Inl UndefinedBehaviour"
proof (induction k arbitrary: q I K)
  case 0
  then show ?case by simp
next
  case (Suc k)
  show ?case
  proof (cases "q = []")
    case True
    then show ?thesis by (simp add: pq_top_Nil)
  next
    case False
    then have "Max (set q) \<in> set q" by simp
    then have "length (remove1 (Max (set q)) q) = length q - 1"
      by (simp add: length_remove1)
    moreover have "length q - 1 < k" using Suc.prems False by (cases q) simp_all
    ultimately have "length (remove1 (Max (set q)) q) < k" by simp
    then show ?thesis using False Suc.IH by (simp add: pq_top_Max)
  qed
qed

lemma pop_top_n_sorted:
  assumes "distinct q" "k \<le> length q"
  shows "\<exists>P. pop_top_n k q I K = Inr (I @ map snd P, K @ map fst P) \<and> length P = k \<and>
             sorted_wrt (>) P \<and> set P \<subseteq> set q \<and> (\<forall>x\<in>set q - set P. \<forall>y\<in>set P. x < y)"
  using assms
proof (induction k arbitrary: q I K)
  case 0
  then show ?case by (intro exI[of _ "[]"]) simp
next
  case (Suc k)
  then have ne: "q \<noteq> []" by auto
  define t where "t = Max (set q)"
  define q' where "q' = remove1 t q"
  have t: "t \<in> set q" "\<And>x. x \<in> set q \<Longrightarrow> x \<le> t"
    using ne by (simp_all add: t_def)
  have q': "distinct q'" "k \<le> length q'" "set q' = set q - {t}"
    using Suc.prems t(1) by (simp_all add: q'_def length_remove1)
  from Suc.IH[OF q'(1) q'(2), of "I @ [snd t]" "K @ [fst t]"] obtain P where
    P: "pop_top_n k q' (I @ [snd t]) (K @ [fst t]) = Inr ((I @ [snd t]) @ map snd P, (K @ [fst t]) @ map fst P)"
       "length P = k" "sorted_wrt (>) P" "set P \<subseteq> set q'" "\<forall>x\<in>set q' - set P. \<forall>y\<in>set P. x < y"
    by blast
  have below: "x < t" if "x \<in> set q'" for x
  proof -
    from that have "x \<in> set q" "x \<noteq> t" unfolding q'(3) by simp_all
    then show ?thesis using t(2)[of x] by simp
  qed
  have 1: "pop_top_n (Suc k) q I K = Inr (I @ map snd (t # P), K @ map fst (t # P))"
    using P(1) ne by (simp add: pq_top_Max t_def[symmetric] q'_def[symmetric])
  have "\<forall>y\<in>set P. y < t" using P(4) below by blast
  then have 2: "sorted_wrt (>) (t # P)" using P(3) by simp
  have 3: "set (t # P) \<subseteq> set q" using P(4) t(1) unfolding q'(3) by auto
  have 4: "\<forall>x\<in>set q - set (t # P). \<forall>y\<in>set (t # P). x < y"
  proof (intro ballI)
    fix x y assume x: "x \<in> set q - set (t # P)" and y: "y \<in> set (t # P)"
    from x have xq: "x \<in> set q'" "x \<notin> set P" unfolding q'(3) by simp_all
    show "x < y"
    proof (cases "y = t")
      case True
      then show ?thesis using below[OF xq(1)] by simp
    next
      case False
      then have "y \<in> set P" using y by simp
      then show ?thesis using P(5) xq by blast
    qed
  qed
  show ?case using 1 2 3 4 P(2) by (intro exI[of _ "t # P"]) simp
qed

lemma sorted_wrt_greater_distinct: "sorted_wrt (>) (P :: 'a::linorder list) \<Longrightarrow> distinct P"
  by (induction P) auto

lemma top_members_by_count:
  fixes q P :: "'a::linorder list"
  assumes "sorted_wrt (>) P" "set P \<subseteq> set q" "\<forall>x\<in>set q - set P. \<forall>y\<in>set P. x < y" "x \<in> set q"
  shows "x \<in> set P \<longleftrightarrow> card {y \<in> set q. y > x} < length P"
proof
  assume "x \<in> set P"
  then obtain a where a: "a < length P" "P ! a = x" by (auto simp: in_set_conv_nth)
  have dP: "distinct P" using assms(1) by (rule sorted_wrt_greater_distinct)
  have "{y \<in> set q. y > x} = set (take a P)"
  proof (intro set_eqI iffI)
    fix y assume "y \<in> {y \<in> set q. y > x}"
    then have y: "y \<in> set q" "y > x" by simp_all
    have "y \<in> set P"
    proof (rule ccontr)
      assume "y \<notin> set P"
      then have "y < x" using assms(3) y(1) \<open>x \<in> set P\<close> by auto
      then show False using y(2) by simp
    qed
    then obtain b where b: "b < length P" "P ! b = y" by (auto simp: in_set_conv_nth)
    have "b < a"
    proof (rule ccontr)
      assume "\<not> b < a"
      then have "a = b \<or> a < b" by auto
      then show False
      proof
        assume "a = b" then show False using a b y(2) by simp
      next
        assume "a < b"
        then have "P ! a > P ! b" using assms(1) b(1) sorted_wrt_iff_nth_less[of "(>)" P] by blast
        then show False using a b y(2) by simp
      qed
    qed
    then show "y \<in> set (take a P)" using b a(1) by (auto simp: in_set_conv_nth)
  next
    fix y assume "y \<in> set (take a P)"
    then obtain b where b: "b < a" "P ! b = y" using a(1) by (auto simp: in_set_conv_nth)
    then have "P ! b > P ! a" using assms(1) a(1) sorted_wrt_iff_nth_less[of "(>)" P] by blast
    moreover have "b < length P" using b(1) a(1) by simp
    then have "P ! b \<in> set P" by (rule nth_mem)
    then have "y \<in> set q" using b(2) assms(2) by auto
    ultimately show "y \<in> {y \<in> set q. y > x}" using a b by simp
  qed
  then have "card {y \<in> set q. y > x} = a"
    using dP a(1) by (simp add: distinct_card)
  then show "card {y \<in> set q. y > x} < length P" using a(1) by simp
next
  assume c: "card {y \<in> set q. y > x} < length P"
  show "x \<in> set P"
  proof (rule ccontr)
    assume "x \<notin> set P"
    then have "set P \<subseteq> {y \<in> set q. y > x}" using assms(2,3,4) by auto
    then have "card (set P) \<le> card {y \<in> set q. y > x}" by (intro card_mono) simp_all
    moreover have "card (set P) = length P"
      using sorted_wrt_greater_distinct[OF assms(1)] by (simp add: distinct_card)
    ultimately show False using c by simp
  qed
qed

lemma fold_push: "fold (\<lambda>i q. f i # q) js acc = rev (map f js) @ acc"
  by (induction js arbitrary: acc) simp_all

lemma unat_of_nat_u8: "i < 256 \<Longrightarrow> unat (of_nat i :: u8) = i"
  by (simp add: unat_of_nat)

lemma of_nat_u8_less: "i < 256 \<Longrightarrow> j < 256 \<Longrightarrow> (of_nat i :: u8) < of_nat j \<longleftrightarrow> i < j"
  by (simp add: word_less_nat_alt unat_of_nat_u8)

lemma of_nat_u8_eq: "i < 256 \<Longrightarrow> j < 256 \<Longrightarrow> (of_nat i :: u8) = of_nat j \<longleftrightarrow> i = j"
  by (metis unat_of_nat_u8)

lemma entry_greater_outranks:
  fixes cs :: "'a::linorder list"
  assumes "i < 256" "j < 256"
  shows "(cs ! j, of_nat j :: u8) > (cs ! i, of_nat i) \<longleftrightarrow> outranks cs j i"
  using assms by (auto simp: less_prod_def' outranks_def of_nat_u8_less)

lemma rank_of_card: "rank_of cs i = card {j. j < length cs \<and> outranks cs j i}"
proof -
  have "rank_of cs i = card ({j. outranks cs j i} \<inter> set [0..<length cs])"
    unfolding rank_of_def by (rule distinct_length_filter) simp
  also have "{j. outranks cs j i} \<inter> set [0..<length cs] = {j. j < length cs \<and> outranks cs j i}"
    by auto
  finally show ?thesis .
qed

lemma get_top_n_elems_short:
  "length cs mod 256 < n \<Longrightarrow> get_top_n_elems cs I K n = Inl UndefinedBehaviour"
  by (simp add: get_top_n_elems_def Let_def fold_push pop_top_n_short)

lemma get_top_n_elems_sorted:
  fixes cs :: "'c::len word list"
  assumes "length cs \<le> 255" "n \<le> length cs"
  shows "\<exists>P. get_top_n_elems cs [] [] n = Inr (map snd P, map fst P) \<and> length P = n \<and>
             sorted_wrt (>) P \<and>
             set P \<subseteq> (\<lambda>i. (cs ! i, of_nat i)) ` {..<length cs} \<and>
             (\<forall>i<length cs. (cs ! i, of_nat i) \<in> set P \<longleftrightarrow> in_top_n n cs i) \<and>
             (\<forall>i<length cs. (cs ! i, of_nat i) \<notin> set P \<longrightarrow> (\<forall>y\<in>set P. (cs ! i, of_nat i) < y))"
proof -
  define m where "m = length cs"
  define e :: "nat \<Rightarrow> 'c word \<times> u8" where "e = (\<lambda>i. (cs ! i, of_nat i))"
  define q where "q = rev (map e [0..<m])"
  have m: "m \<le> 255" "m mod 256 = m" using assms(1) by (simp_all add: m_def)
  have inj: "inj_on e {..<m}"
    using m(1) by (auto simp: inj_on_def e_def of_nat_u8_eq)
  have dq: "distinct q"
    using inj by (simp add: q_def distinct_map atLeast_upt[symmetric] lessThan_atLeast0)
  have sq: "set q = e ` {..<m}" by (auto simp: q_def)
  have lq: "n \<le> length q" using assms(2) by (simp add: q_def m_def)
  have g: "get_top_n_elems cs [] [] n = pop_top_n n q [] []"
    using m(2) by (simp add: get_top_n_elems_def Let_def fold_push q_def e_def m_def)
  from pop_top_n_sorted[OF dq lq, of "[]" "[]"] obtain P where
    P: "pop_top_n n q [] [] = Inr (map snd P, map fst P)" "length P = n" "sorted_wrt (>) P"
       "set P \<subseteq> set q" "\<forall>x\<in>set q - set P. \<forall>y\<in>set P. x < y"
    by auto
  have "e i \<in> set P \<longleftrightarrow> in_top_n n cs i" if i: "i < m" for i
  proof -
    have "e i \<in> set q" using i sq by simp
    then have "e i \<in> set P \<longleftrightarrow> card {y \<in> set q. y > e i} < n"
      using top_members_by_count[OF P(3) P(4) P(5)] P(2) by simp
    moreover have "{y \<in> set q. y > e i} = e ` {j. j < m \<and> outranks cs j i}"
    proof (intro set_eqI iffI)
      fix y assume "y \<in> {y \<in> set q. y > e i}"
      then obtain j where j: "j < m" "y = e j" "e j > e i" using sq by auto
      then have "outranks cs j i"
        using entry_greater_outranks[of i j cs] i m(1) by (simp add: e_def)
      then show "y \<in> e ` {j. j < m \<and> outranks cs j i}" using j by simp
    next
      fix y assume "y \<in> e ` {j. j < m \<and> outranks cs j i}"
      then obtain j where j: "j < m" "y = e j" "outranks cs j i" by auto
      then have "e j > e i"
        using entry_greater_outranks[of i j cs] i m(1) by (simp add: e_def)
      then show "y \<in> {y \<in> set q. y > e i}" using j sq by simp
    qed
    moreover have "card (e ` {j. j < m \<and> outranks cs j i}) = card {j. j < m \<and> outranks cs j i}"
      by (rule card_image) (rule inj_on_subset[OF inj], auto)
    ultimately show ?thesis
      by (simp add: in_top_n_def rank_of_card m_def)
  qed
  moreover have "\<forall>y\<in>set P. e i < y" if "i < m" "e i \<notin> set P" for i
    using P(5) sq that by auto
  ultimately show ?thesis using g P sq by (intro exI[of _ P]) (simp add: e_def m_def)
qed

text \<open>
  For at most 255 classes the selection breaks ties by the higher index: of two
  classes with equal counts, the lower index is selected only if the higher one is,
  and the higher one is then placed earlier in the output.
\<close>

lemma tie_break_higher_index:
  fixes cs :: "'c::len word list"
  assumes "length cs \<le> 255" "n \<le> length cs"
    and "get_top_n_elems cs [] [] n = Inr (idxs, cnts)"
    and "i < j" "j < length cs" "cs ! i = cs ! j" "of_nat i \<in> set idxs"
  shows "\<exists>a b. a < b \<and> b < n \<and> length idxs = n \<and> idxs ! a = of_nat j \<and> idxs ! b = of_nat i"
proof -
  define e :: "nat \<Rightarrow> 'c word \<times> u8" where "e = (\<lambda>i. (cs ! i, of_nat i))"
  from get_top_n_elems_sorted[OF assms(1) assms(2)] assms(3) obtain P where
    P: "idxs = map snd P" "length P = n" "sorted_wrt (>) P"
       "set P \<subseteq> e ` {..<length cs}"
       "\<forall>i<length cs. e i \<notin> set P \<longrightarrow> (\<forall>y\<in>set P. e i < y)"
    unfolding e_def by auto
  have lt: "i < 256" "j < 256" "i < length cs" using assms(1,4,5) by simp_all
  from assms(7) obtain x where x: "x \<in> set P" "snd x = of_nat i" using P(1) by auto
  then obtain i' where i': "i' < length cs" "x = e i'" using P(4) by auto
  then have "i' = i" using x(2) lt assms(1) of_nat_u8_eq[of i' i] by (simp add: e_def)
  then have ei: "e i \<in> set P" using x(1) i'(2) by simp
  have gt: "e i < e j"
    using entry_greater_outranks[of i j cs] lt assms(4,6) by (simp add: e_def outranks_def)
  have ej: "e j \<in> set P"
  proof (rule ccontr)
    assume "e j \<notin> set P"
    then have "e j < e i" using P(5) assms(5) ei by blast
    then show False using gt by simp
  qed
  from ei obtain b where b: "b < length P" "P ! b = e i" by (auto simp: in_set_conv_nth)
  from ej obtain a where a: "a < length P" "P ! a = e j" by (auto simp: in_set_conv_nth)
  have "a < b"
  proof (rule ccontr)
    assume "\<not> a < b"
    then have "b = a \<or> b < a" by auto
    then show False
    proof
      assume "b = a" then show False using a b gt by simp
    next
      assume "b < a"
      then have "P ! b > P ! a" using P(3) a(1) sorted_wrt_iff_nth_less[of "(>)" P] by blast
      then show False using a b gt by simp
    qed
  qed
  moreover have "idxs ! a = of_nat j" "idxs ! b = of_nat i"
    using a b P(1) by (simp_all add: e_def)
  moreover have "b < n" "length idxs = n" using b(1) P(1,2) by simp_all
  ultimately show ?thesis by blast
qed

section \<open>The header words\<close>

lemma low_mask: "(0x0000FFFF :: u32) = mask 16"
  by (simp add: mask_eq_exp_minus_1)

lemma high_mask: "(0xFFFF0000 :: u32) = push_bit 16 (mask 16)"
  by (simp add: mask_eq_exp_minus_1 push_bit_eq_mult)

lemma high_half:
  fixes lo hi :: u32
  assumes "\<And>n. bit lo n \<Longrightarrow> n < 16"
  shows "(ucast (drop_bit 16 ((lo OR push_bit 16 hi) AND 0xFFFF0000)) :: u8) = ucast hi"
proof (rule bit_word_eqI)
  fix n assume n: "n < LENGTH(8)"
  have "\<not> bit lo (16 + n)"
    using assms[of "16 + n"] by auto
  then show "bit (ucast (drop_bit 16 ((lo OR push_bit 16 hi) AND 0xFFFF0000)) :: u8) n \<longleftrightarrow>
        bit (ucast hi :: u8) n"
    using n by (simp add: high_mask bit_simps)
qed

lemma low_half:
  fixes lo hi :: u32
  shows "(ucast ((lo OR push_bit 16 hi) AND 0x0000FFFF) :: u8) = ucast lo"
proof (rule bit_word_eqI)
  fix n assume n: "n < LENGTH(8)"
  then show "bit (ucast ((lo OR push_bit 16 hi) AND 0x0000FFFF) :: u8) n \<longleftrightarrow> bit (ucast lo :: u8) n"
    by (simp add: low_mask bit_simps)
qed

lemma low_half_flag:
  fixes hi :: u32
  shows "(((if g then 1 else 0) OR push_bit 16 hi) AND 0x0000FFFF \<noteq> 0) = g"
proof -
  have "((if g then 1 else 0) OR push_bit 16 hi) AND 0x0000FFFF = (if g then 1 else (0 :: u32))"
    by (rule bit_word_eqI) (auto simp: low_mask bit_simps bit_1_iff)
  then show ?thesis by simp
qed

lemma bit_ucast_u16_low: "bit (ucast (x :: u16) :: u32) n \<Longrightarrow> n < 16"
  by (auto simp: bit_simps dest: bit_imp_le_length)

lemma bit_flag_low: "bit (if g then 1 else 0 :: u32) n \<Longrightarrow> n < 16"
  by (cases g) (simp_all add: bit_1_iff)

lemma ucast_ucast_u16: "ucast (ucast (x :: u16) :: u32) = (ucast x :: u8)"
  by (rule bit_word_eqI) (simp add: bit_simps)

lemma ucast_u8_u16_id: "x < 256 \<Longrightarrow> (ucast (ucast (x :: u16) :: u8) :: u16) = x"
proof -
  assume "x < 256"
  then have "x < 2 ^ 8" by simp
  then have "take_bit 8 x = x" by (simp add: take_bit_eq_mask less_mask_eq)
  moreover have "(ucast (ucast x :: u8) :: u16) = take_bit 8 x"
    by (rule bit_word_eqI) (auto simp: bit_simps)
  ultimately show ?thesis by simp
qed

lemma ucast_u8_u32_id: "x < 256 \<Longrightarrow> (ucast (ucast (x :: u32) :: u8) :: u32) = x"
proof -
  assume "x < 256"
  then have "x < 2 ^ 8" by simp
  then have "take_bit 8 x = x" by (simp add: take_bit_eq_mask less_mask_eq)
  moreover have "(ucast (ucast x :: u8) :: u32) = take_bit 8 x"
    by (rule bit_word_eqI) (auto simp: bit_simps)
  ultimately show ?thesis by simp
qed

lemma of_nat_class_count:
  assumes "C < 258"
  shows "unat (of_nat C :: u32) = C \<and> ((of_nat C :: u32) = 0 \<longleftrightarrow> C = 0)"
proof -
  have u: "unat (of_nat C :: u32) = C" using assms by (simp add: unat_of_nat)
  have a: "C = 0" if "(of_nat C :: u32) = 0"
    using u that by simp
  have b: "(of_nat C :: u32) = 0" if "C = 0"
    using that by simp
  show ?thesis using u a b by blast
qed

section \<open>Encoding a voxel\<close>

lemma convertVoxelToInt32_empty:
  "counts V = [] \<Longrightarrow>
   convertVoxelToInt32 top_n csb V data =
     Inr (belongs_count V \<noteq> 0 \<or> foreign_count V \<noteq> 0, data @ header_words V)"
  by (simp add: convertVoxelToInt32_def header_words_def Let_def)

lemma convertVoxelToInt32_classes:
  fixes V :: "'c::len word ClassVoxel"
  assumes "counts V \<noteq> []" "length (counts V) \<le> 255" "top_n \<le> length (counts V)"
    and "0 < csb" "csb \<le> 32"
  shows "\<exists>P :: ('c word \<times> u8) list. convertVoxelToInt32 top_n csb V data =
               Inr (True, data @ header_words V @ pack_words 8 (map snd P) @ pack_words csb (map fst P)) \<and>
             length P = top_n \<and> sorted_wrt (>) P \<and>
             set P \<subseteq> (\<lambda>i. (counts V ! i, of_nat i)) ` {..<length (counts V)} \<and>
             (\<forall>i<length (counts V). (counts V ! i, of_nat i) \<in> set P \<longleftrightarrow> in_top_n top_n (counts V) i)"
proof -
  from get_top_n_elems_sorted[OF assms(2) assms(3)] obtain P where
    P: "get_top_n_elems (counts V) [] [] top_n = Inr (map snd P, map fst P)"
       "length P = top_n" "sorted_wrt (>) P"
       "set P \<subseteq> (\<lambda>i. (counts V ! i, of_nat i)) ` {..<length (counts V)}"
       "\<forall>i<length (counts V). (counts V ! i, of_nat i) \<in> set P \<longleftrightarrow> in_top_n top_n (counts V) i"
    by blast
  have i8: "convert_vector_to_uint32 (map snd P) out 8 = Inr (out @ pack_words 8 (map snd P))" for out
    by (rule convert_vector_to_uint32_pack_words) simp_all
  have ic: "convert_vector_to_uint32 (map fst P) out csb = Inr (out @ pack_words csb (map fst P))" for out
    using assms(4,5) by (rule convert_vector_to_uint32_pack_words)
  have "convertVoxelToInt32 top_n csb V data =
        Inr (True, data @ header_words V @ pack_words 8 (map snd P) @ pack_words csb (map fst P))"
    using assms(1,2) P(1) by (simp add: convertVoxelToInt32_def header_words_def Let_def i8 ic)
  then show ?thesis using P(2-5) by (intro exI[of _ P]) simp
qed

lemma convertVoxelToInt32_too_few:
  assumes "0 < length (counts V)" "length (counts V) < top_n"
  shows "convertVoxelToInt32 top_n csb V data =
           Inl (if length (counts V) < 258 then UndefinedBehaviour else CheckFailed)"
proof -
  have "length (counts V) mod 256 \<le> length (counts V)" by simp
  then have "length (counts V) mod 256 < top_n" using assms(2) by simp
  then have "get_top_n_elems (counts V) [] [] top_n = Inl UndefinedBehaviour"
    by (rule get_top_n_elems_short)
  then show ?thesis using assms(1) by (simp add: convertVoxelToInt32_def Let_def)
qed

section \<open>Decoding a voxel\<close>

lemma vector_at_header:
  "vector_at (pre @ header_words V @ post) (length pre) = Inr (of_nat (length (counts V)))"
  "vector_at (pre @ header_words V @ post) (length pre + 1) =
     Inr (ucast (belongs_count V) OR push_bit 16 (ucast (foreign_count V)))"
  "vector_at (pre @ header_words V @ post) (length pre + 2) =
     Inr ((if is_gt V then 1 else 0) OR push_bit 16 (current_index V))"
  by (simp_all add: vector_at_def header_words_def nth_append)

lemma decode_foreign:
  "(ucast (drop_bit 16 ((ucast (b :: u16) OR push_bit 16 (ucast (f :: u16))) AND (0xFFFF0000 :: u32))) :: u8) = ucast f"
  using high_half[of "ucast b" "ucast f"] bit_ucast_u16_low[of b] by (simp add: ucast_ucast_u16)

lemma decode_belongs:
  "(ucast ((ucast (b :: u16) OR push_bit 16 (ucast (f :: u16))) AND (0x0000FFFF :: u32)) :: u8) = ucast b"
  using low_half[of "ucast b" "ucast f"] by (simp add: ucast_ucast_u16)

lemma decode_index:
  "(ucast (drop_bit 16 (((if g then 1 else 0) OR push_bit 16 ci) AND (0xFFFF0000 :: u32))) :: u8) = ucast ci"
  using high_half[of "if g then 1 else 0" ci] bit_flag_low[of g] by simp

lemmas decode_header = decode_foreign decode_belongs decode_index low_half_flag

lemma readVoxelFromInt32_empty:
  assumes "counts V = []"
  shows "\<exists>b V'. readVoxelFromInt32 top_n csb (pre @ header_words V @ post) (length pre) W =
                   Inr (b, length pre + 3, V') \<and>
           foreign_count V' = ucast (ucast (foreign_count V) :: u8) \<and>
           belongs_count V' = ucast (ucast (belongs_count V) :: u8) \<and>
           current_index V' = - 1 \<and> is_gt V' = is_gt V \<and> counts V' = counts W"
proof -
  have z: "(of_nat (length (counts V)) :: u32) = 0" using assms by simp
  show ?thesis
    by (simp only: readVoxelFromInt32_def vector_at_header sum.case Let_def decode_header z
          refl if_True) simp
qed

lemma scatter_length:
  "scatter idxs cs js zs = Inr zs' \<Longrightarrow> length zs' = length zs"
proof (induction js arbitrary: zs)
  case Nil
  then show ?case by simp
next
  case (Cons k js)
  then show ?case
    by (auto simp: vector_at_def split: if_splits sum.splits)
qed

lemma scatter_in_range:
  "scatter idxs cs js zs = Inr zs' \<Longrightarrow> k \<in> set js \<Longrightarrow> k < length idxs \<and> unat (idxs ! k) < length zs"
proof (induction js arbitrary: zs)
  case Nil
  then show ?case by simp
next
  case (Cons j js)
  from Cons.prems(1) obtain idx c where
    s: "j < length idxs" "idx = idxs ! j" "unat idx < length zs"
       "scatter idxs cs js (zs[unat idx := c]) = Inr zs'"
    by (auto simp: vector_at_def split: if_splits sum.splits)
  show ?case
  proof (cases "k = j")
    case True
    then show ?thesis using s by simp
  next
    case False
    then have "k \<in> set js" using Cons.prems(2) by simp
    from Cons.IH[OF s(4) this] show ?thesis by simp
  qed
qed

lemma scatter_result:
  assumes "\<forall>k\<in>set js. k < length idxs \<and> k < length cs \<and> unat (idxs ! k) < length zs \<and>
                        cs ! k = src ! unat (idxs ! k)"
  shows "\<exists>zs'. scatter idxs cs js zs = Inr zs' \<and> length zs' = length zs \<and>
           (\<forall>i<length zs. zs' ! i =
              (if i \<in> (\<lambda>k. unat (idxs ! k)) ` set js then src ! i else zs ! i))"
  using assms
proof (induction js arbitrary: zs)
  case Nil
  then show ?case by simp
next
  case (Cons j js)
  define zs1 where "zs1 = zs[unat (idxs ! j) := cs ! j]"
  have j: "j < length idxs" "j < length cs" "unat (idxs ! j) < length zs"
          "cs ! j = src ! unat (idxs ! j)"
    using Cons.prems by simp_all
  have "\<forall>k\<in>set js. k < length idxs \<and> k < length cs \<and> unat (idxs ! k) < length zs1 \<and>
                        cs ! k = src ! unat (idxs ! k)"
    using Cons.prems by (simp add: zs1_def)
  from Cons.IH[OF this] obtain zs' where
    zs': "scatter idxs cs js zs1 = Inr zs'" "length zs' = length zs1"
         "\<forall>i<length zs1. zs' ! i =
              (if i \<in> (\<lambda>k. unat (idxs ! k)) ` set js then src ! i else zs1 ! i)"
    by blast
  have 1: "scatter idxs cs (j # js) zs = Inr zs'"
    using j zs'(1) by (simp add: vector_at_def zs1_def)
  have 2: "length zs' = length zs" using zs'(2) by (simp add: zs1_def)
  have 3: "zs' ! i = (if i \<in> (\<lambda>k. unat (idxs ! k)) ` set (j # js) then src ! i else zs ! i)"
    if "i < length zs" for i
  proof -
    have "zs' ! i = (if i \<in> (\<lambda>k. unat (idxs ! k)) ` set js then src ! i else zs1 ! i)"
      using zs'(3) that by (simp add: zs1_def)
    moreover have "zs1 ! i = (if i = unat (idxs ! j) then src ! i else zs ! i)"
      using that j(4) by (simp add: zs1_def nth_list_update)
    ultimately show ?thesis by auto
  qed
  show ?case using 1 2 3 by blast
qed

lemma readVoxelFromInt32_classes:
  fixes V W :: "'c::len word ClassVoxel" and idxs :: "u8 list" and cnts :: "'c word list"
  assumes "counts V \<noteq> []" "length (counts V) < 258" "LENGTH('c) = csb" "csb \<le> 32"
    and "length idxs = top_n" "length cnts = top_n"
    and "scatter idxs cnts [0..<top_n] (counts W @ replicate (length (counts V)) 0) = Inr zs"
  shows "\<exists>V'. readVoxelFromInt32 top_n csb
                 (pre @ header_words V @ pack_words 8 idxs @ pack_words csb cnts @ post) (length pre) W =
               Inr (True, length pre + 3 + (top_n + 3) div 4 + (top_n + 32 div csb - 1) div (32 div csb), V') \<and>
           foreign_count V' = ucast (ucast (foreign_count V) :: u8) \<and>
           belongs_count V' = ucast (ucast (belongs_count V) :: u8) \<and>
           current_index V' = ucast (ucast (current_index V) :: u8) \<and>
           is_gt V' = is_gt V \<and> counts V' = zs"
proof -
  let ?data = "pre @ header_words V @ pack_words 8 idxs @ pack_words csb cnts @ post"
  have pos: "0 < csb" using assms(3) by (metis len_gt_0)
  have p: "0 < 32 div csb" using pos assms(4) by (simp add: div_greater_zero_iff)
  have nz: "((of_nat (length (counts V)) :: u32) = 0) = False"
    using of_nat_class_count[OF assms(2)] assms(1) by simp
  have un: "unat (of_nat (length (counts V)) :: u32) = length (counts V)"
    using of_nat_class_count[OF assms(2)] by simp
  have ub: "((0x80000000 :: u32) \<le> of_nat (length (counts V))) = False"
    using assms(2) un by (simp add: word_le_nat_alt)
  have dz: "(32 div csb = 0) = False" using p by simp
  have lh: "length (header_words V) = 3" by (simp add: header_words_def)
  have ri0: "read_indices ((pre @ header_words V) @ pack_words 8 idxs @ (pack_words csb cnts @ post))
               (length (pre @ header_words V)) [0..<top_n] [] = Inr ([] @ map ((!) idxs) [0..<top_n])"
    by (rule read_indices_packed) (simp add: assms(5))
  have mi: "map ((!) idxs) [0..<top_n] = idxs" using map_nth[of idxs] assms(5) by simp
  have mc: "map ((!) cnts) [0..<top_n] = cnts" using map_nth[of cnts] assms(6) by simp
  have ri: "read_indices ?data (length pre + 3) [0..<top_n] [] = Inr idxs"
    using ri0 by (simp add: lh mi)
  have l8: "length (pack_words 8 idxs) = (top_n + 3) div 4"
    using length_pack_words[of 8 idxs] assms(5) by simp
  have rc0: "read_counts csb ((pre @ header_words V @ pack_words 8 idxs) @ pack_words csb cnts @ post)
               (length (pre @ header_words V @ pack_words 8 idxs)) [0..<top_n] [] =
             Inr ([] @ map ((!) cnts) [0..<top_n])"
    by (rule read_counts_packed[OF assms(3) assms(4)]) (simp add: assms(6))
  have rc: "read_counts csb ?data (length pre + 3 + (top_n + 3) div 4) [0..<top_n] [] = Inr cnts"
    using rc0 by (simp add: lh l8 mc add.assoc)
  have sc: "scatter idxs cnts [0..<length idxs] (counts W @ replicate (length (counts V)) 0) = Inr zs"
    using assms(5,7) by simp
  show ?thesis
    by (simp only: readVoxelFromInt32_def vector_at_header sum.case Let_def decode_header nz un ub dz
          ri rc if_False)
       (simp add: sc)
qed

section \<open>Round trip of one voxel\<close>

lemma selected_entries:
  fixes cs :: "'c::len word list" and P :: "('c word \<times> u8) list"
  assumes "length cs \<le> 255" "set P \<subseteq> (\<lambda>i. (cs ! i, of_nat i)) ` {..<length cs}"
  shows "\<forall>k\<in>set [0..<length P].
            k < length (map snd P) \<and> k < length (map fst P) \<and>
            unat (map snd P ! k) < length cs \<and>
            map fst P ! k = cs ! unat (map snd P ! k)"
    and "\<forall>i<length cs. i \<in> (\<lambda>k. unat (map snd P ! k)) ` set [0..<length P] \<longleftrightarrow>
            (cs ! i, of_nat i) \<in> set P"
proof -
  have entry: "\<exists>i<length cs. P ! k = (cs ! i, of_nat i) \<and> unat (snd (P ! k)) = i"
    if "k < length P" for k
  proof -
    have "P ! k \<in> set P" using that by simp
    then obtain i where i: "i < length cs" "P ! k = (cs ! i, of_nat i)" using assms(2) by auto
    then have "unat (snd (P ! k)) = i" using assms(1) by (simp add: unat_of_nat_u8)
    then show ?thesis using i by blast
  qed
  show "\<forall>k\<in>set [0..<length P].
            k < length (map snd P) \<and> k < length (map fst P) \<and>
            unat (map snd P ! k) < length cs \<and>
            map fst P ! k = cs ! unat (map snd P ! k)"
  proof
    fix k assume "k \<in> set [0..<length P]"
    then have k: "k < length P" by simp
    from entry[OF k] obtain i where "i < length cs" "P ! k = (cs ! i, of_nat i)" "unat (snd (P ! k)) = i"
      by blast
    then show "k < length (map snd P) \<and> k < length (map fst P) \<and>
            unat (map snd P ! k) < length cs \<and>
            map fst P ! k = cs ! unat (map snd P ! k)"
      using k by simp
  qed
  show "\<forall>i<length cs. i \<in> (\<lambda>k. unat (map snd P ! k)) ` set [0..<length P] \<longleftrightarrow>
            (cs ! i, of_nat i) \<in> set P"
  proof (intro allI impI iffI)
    fix i assume "i < length cs" "i \<in> (\<lambda>k. unat (map snd P ! k)) ` set [0..<length P]"
    then obtain k where k: "k < length P" "i = unat (snd (P ! k))" by auto
    from entry[OF k(1)] k(2) have "P ! k = (cs ! i, of_nat i)" by auto
    then show "(cs ! i, of_nat i) \<in> set P" using k(1) by (metis nth_mem)
  next
    fix i assume i: "i < length cs" "(cs ! i, of_nat i :: u8) \<in> set P"
    then obtain k where k: "k < length P" "P ! k = (cs ! i, of_nat i)"
      by (auto simp: in_set_conv_nth)
    then have "unat (map snd P ! k) = i" using i(1) assms(1) by (simp add: unat_of_nat_u8)
    then show "i \<in> (\<lambda>k. unat (map snd P ! k)) ` set [0..<length P]" using k(1) by force
  qed
qed

lemma encoded_length:
  assumes "0 < csb" "csb \<le> 32" "length idxs = top_n" "length cnts = top_n"
  shows "length (header_words V @ pack_words 8 (idxs :: u8 list) @ pack_words csb cnts) =
         3 + (top_n + 3) div 4 + (top_n + 32 div csb - 1) div (32 div csb)"
proof -
  have "0 < 32 div csb" using assms(1,2) by (simp add: div_greater_zero_iff)
  then have "length (pack_words csb cnts) = (top_n + 32 div csb - 1) div (32 div csb)"
    using length_pack_words[of csb cnts] assms(4) by simp
  moreover have "length (pack_words 8 idxs) = (top_n + 3) div 4"
    using length_pack_words[of 8 idxs] assms(3) by simp
  ultimately show ?thesis by (simp add: header_words_def)
qed

text \<open>
  C1 (voxel codec round trip), as the code does it: for a voxel \<open>V\<close> whose class
  count \<open>C\<close> is 0 or at least \<open>TOP_N\<close> and at most 255, with \<open>Counter\<close> an unsigned type of
  \<open>COUNTER_SIZE_BITS \<le> 32\<close> bits, \<open>convertVoxelToInt32\<close> returns a word sequence, and
  \<open>readVoxelFromInt32\<close> applied to it and to a voxel with no counts consumes all of it and
  yields a voxel with the \<open>is_gt\<close> of \<open>V\<close>; with the \<open>belongs_count\<close> and \<open>foreign_count\<close>
  of \<open>V\<close> where they are below 256; with \<open>current_index\<close> equal to \<open>-1\<close> when \<open>C = 0\<close> and
  to that of \<open>V\<close> when \<open>C > 0\<close> and it lies in \<open>0..255\<close>; and with \<open>C\<close> counts, where each
  of the top \<open>TOP_N\<close> classes (by count, the higher index first among equal counts)
  has its count of \<open>V\<close> and every other class has 0.
\<close>

theorem voxel_codec_round_trip:
  fixes V W :: "'c::len word ClassVoxel"
  assumes "LENGTH('c) = csb" "csb \<le> 32"
    and "counts V = [] \<or> (top_n \<le> length (counts V) \<and> length (counts V) \<le> 255)"
    and "counts W = []"
  shows "\<exists>b ws b' V'.
           convertVoxelToInt32 top_n csb V [] = Inr (b, ws) \<and>
           readVoxelFromInt32 top_n csb ws 0 W = Inr (b', length ws, V') \<and>
           (belongs_count V < 256 \<longrightarrow> belongs_count V' = belongs_count V) \<and>
           (foreign_count V < 256 \<longrightarrow> foreign_count V' = foreign_count V) \<and>
           is_gt V' = is_gt V \<and>
           (counts V = [] \<longrightarrow> current_index V' = - 1) \<and>
           (counts V \<noteq> [] \<and> current_index V < 256 \<longrightarrow> current_index V' = current_index V) \<and>
           length (counts V') = length (counts V) \<and>
           (\<forall>i<length (counts V).
              counts V' ! i = (if in_top_n top_n (counts V) i then counts V ! i else 0))"
proof (cases "counts V = []")
  case True
  have e: "convertVoxelToInt32 top_n csb V [] =
           Inr (belongs_count V \<noteq> 0 \<or> foreign_count V \<noteq> 0, header_words V)"
    using convertVoxelToInt32_empty[OF True, of top_n csb "[]"] by simp
  from readVoxelFromInt32_empty[OF True, of top_n csb "[]" "[]" W] obtain b' V' where
    d: "readVoxelFromInt32 top_n csb (header_words V) 0 W = Inr (b', 3, V')"
       "foreign_count V' = ucast (ucast (foreign_count V) :: u8)"
       "belongs_count V' = ucast (ucast (belongs_count V) :: u8)"
       "current_index V' = - 1" "is_gt V' = is_gt V" "counts V' = counts W"
    by auto
  have l: "length (header_words V) = 3" by (simp add: header_words_def)
  show ?thesis
    using e d l True assms(4)
    by (intro exI[of _ "belongs_count V \<noteq> 0 \<or> foreign_count V \<noteq> 0"] exI[of _ "header_words V"]
          exI[of _ b'] exI[of _ V'])
       (simp add: ucast_u8_u16_id)
next
  case False
  define cs where "cs = counts V"
  have C: "top_n \<le> length cs" "length cs \<le> 255" "cs \<noteq> []"
    using assms(3) False by (simp_all add: cs_def)
  have pos: "0 < csb" using assms(1) by (metis len_gt_0)
  from convertVoxelToInt32_classes[OF False _ _ pos assms(2), of top_n "[]"] C
  obtain P :: "('c word \<times> u8) list" where
    P: "convertVoxelToInt32 top_n csb V [] =
          Inr (True, header_words V @ pack_words 8 (map snd P) @ pack_words csb (map fst P))"
       "length P = top_n"
       "set P \<subseteq> (\<lambda>i. (cs ! i, of_nat i)) ` {..<length cs}"
       "\<forall>i<length cs. (cs ! i, of_nat i) \<in> set P \<longleftrightarrow> in_top_n top_n cs i"
    unfolding cs_def by auto
  define ws where "ws = header_words V @ pack_words 8 (map snd P) @ pack_words csb (map fst P)"
  note sel = selected_entries[OF C(2) P(3)]
  have "\<forall>k\<in>set [0..<top_n].
            k < length (map snd P) \<and> k < length (map fst P) \<and>
            unat (map snd P ! k) < length (replicate (length cs) (0 :: 'c word)) \<and>
            map fst P ! k = cs ! unat (map snd P ! k)"
    using sel(1) P(2) by simp
  from scatter_result[OF this] obtain zs where
    zs: "scatter (map snd P) (map fst P) [0..<top_n] (replicate (length cs) 0) = Inr zs"
        "length zs = length cs"
        "\<forall>i<length cs. zs ! i =
           (if i \<in> (\<lambda>k. unat (map snd P ! k)) ` set [0..<top_n] then cs ! i else 0)"
    by auto
  have sc: "scatter (map snd P) (map fst P) [0..<top_n] (counts W @ replicate (length (counts V)) 0) = Inr zs"
    using zs(1) assms(4) by (simp add: cs_def)
  have lt: "length (counts V) < 258" using C(2) by (simp add: cs_def)
  from readVoxelFromInt32_classes[OF False lt assms(1) assms(2) _ _ sc, where pre="[]" and post="[]"] P(2)
  obtain V' where
    d: "readVoxelFromInt32 top_n csb ws 0 W =
          Inr (True, 3 + (top_n + 3) div 4 + (top_n + 32 div csb - 1) div (32 div csb), V')"
       "foreign_count V' = ucast (ucast (foreign_count V) :: u8)"
       "belongs_count V' = ucast (ucast (belongs_count V) :: u8)"
       "current_index V' = ucast (ucast (current_index V) :: u8)"
       "is_gt V' = is_gt V" "counts V' = zs"
    unfolding ws_def by auto
  have len: "length ws = 3 + (top_n + 3) div 4 + (top_n + 32 div csb - 1) div (32 div csb)"
    unfolding ws_def using encoded_length[OF pos assms(2), of "map snd P" top_n "map fst P" V] P(2)
    by simp
  have content: "\<forall>i<length (counts V).
              counts V' ! i = (if in_top_n top_n (counts V) i then counts V ! i else 0)"
    using zs(3) sel(2) P(2) P(4) d(6) by (simp add: cs_def)
  show ?thesis
    using P(1) d len content zs(2) False
    by (intro exI[of _ True] exI[of _ ws] exI[of _ True] exI[of _ V'])
       (simp add: ws_def[symmetric] cs_def ucast_u8_u16_id ucast_u8_u32_id)
qed

text \<open>
  The scenario of the specification: counts \<open>[5, 0, 9, 3]\<close>, \<open>belongs_count = 10\<close>,
  \<open>foreign_count = 2\<close>, \<open>current_index = 2\<close>, not ground truth, \<open>TOP_N = 3\<close> and
  16-bit counters. The classes 2, 0 and 3 are the top three; class 1 has count 0 anyway.
  A voxel without classes comes back with \<open>current_index = -1\<close>. Of the counts
  \<open>[5, 1, 9, 3, 4]\<close> the classes 1 and 3 are not among the top three and come back as 0.
\<close>

theorem voxel_codec_round_trip_witness:
  "LENGTH(16) = (16::nat) \<and> (16::nat) \<le> 32 \<and>
   (counts scenario_voxel = [] \<or>
      (3 \<le> length (counts scenario_voxel) \<and> length (counts scenario_voxel) \<le> 255)) \<and>
   counts fresh_voxel = [] \<and>
   convertVoxelToInt32 3 16 scenario_voxel [] =
     Inr (True, [4, 0x0002000A, 0x00020000, 0x00030002, 0x00050009, 3]) \<and>
   (\<exists>b' V'. readVoxelFromInt32 3 16 [4, 0x0002000A, 0x00020000, 0x00030002, 0x00050009, 3] 0 fresh_voxel =
              Inr (b', 6, V') \<and>
            belongs_count V' = 10 \<and> foreign_count V' = 2 \<and> \<not> is_gt V' \<and> current_index V' = 2 \<and>
            length (counts V') = 4 \<and>
            counts V' ! 0 = 5 \<and> counts V' ! 1 = 0 \<and> counts V' ! 2 = 9 \<and> counts V' ! 3 = 3) \<and>
   counts classless_voxel = [] \<and>
   convertVoxelToInt32 3 16 classless_voxel [] = Inr (True, [0, 0x0002000A, 0x00070000]) \<and>
   (\<exists>b' V'. readVoxelFromInt32 3 16 [0, 0x0002000A, 0x00070000] 0 fresh_voxel = Inr (b', 3, V') \<and>
            belongs_count V' = 10 \<and> foreign_count V' = 2 \<and> \<not> is_gt V' \<and> current_index V' = - 1 \<and>
            length (counts V') = 0) \<and>
   (\<exists>b ws b' V'. convertVoxelToInt32 3 16 five_class_voxel [] = Inr (b, ws) \<and>
            readVoxelFromInt32 3 16 ws 0 fresh_voxel = Inr (b', length ws, V') \<and>
            length (counts V') = 5 \<and> is_gt V' \<and>
            counts V' ! 0 = 5 \<and> counts V' ! 1 = 0 \<and> counts V' ! 2 = 9 \<and> counts V' ! 3 = 0 \<and>
            counts V' ! 4 = 4)"
proof -
  have h: "LENGTH(16) = (16::nat)" "(16::nat) \<le> 32"
      "counts scenario_voxel = [] \<or>
        (3 \<le> length (counts scenario_voxel) \<and> length (counts scenario_voxel) \<le> 255)"
      "counts fresh_voxel = []"
    by (simp_all add: scenario_voxel_def fresh_voxel_def)
  have enc: "convertVoxelToInt32 3 16 scenario_voxel [] =
     Inr (True, [4, 0x0002000A, 0x00020000, 0x00030002, 0x00050009, 3])"
    by code_simp
  have top: "in_top_n 3 [5, 0, 9, 3 :: u16] 0" "\<not> in_top_n 3 [5, 0, 9, 3 :: u16] 1"
            "in_top_n 3 [5, 0, 9, 3 :: u16] 2" "in_top_n 3 [5, 0, 9, 3 :: u16] 3"
    by code_simp+
  from voxel_codec_round_trip[OF h] obtain b ws b' V' where
    r: "convertVoxelToInt32 3 16 scenario_voxel [] = Inr (b, ws)"
       "readVoxelFromInt32 3 16 ws 0 fresh_voxel = Inr (b', length ws, V')"
       "belongs_count scenario_voxel < 256 \<longrightarrow> belongs_count V' = belongs_count scenario_voxel"
       "foreign_count scenario_voxel < 256 \<longrightarrow> foreign_count V' = foreign_count scenario_voxel"
       "is_gt V' = is_gt scenario_voxel"
       "counts scenario_voxel \<noteq> [] \<and> current_index scenario_voxel < 256 \<longrightarrow>
          current_index V' = current_index scenario_voxel"
       "length (counts V') = length (counts scenario_voxel)"
       "\<forall>i<length (counts scenario_voxel).
          counts V' ! i = (if in_top_n 3 (counts scenario_voxel) i then counts scenario_voxel ! i else 0)"
    by blast
  have ws: "ws = [4, 0x0002000A, 0x00020000, 0x00030002, 0x00050009, 3]"
    using r(1) enc by simp
  have f: "belongs_count V' = 10" "foreign_count V' = 2" "\<not> is_gt V'" "current_index V' = 2"
          "length (counts V') = 4"
    using r(3-7) by (simp_all add: scenario_voxel_def)
  have c: "counts V' ! 0 = 5" "counts V' ! 1 = 0" "counts V' ! 2 = 9" "counts V' ! 3 = 3"
    using r(8) top by (simp_all add: scenario_voxel_def)
  have first: "\<exists>b' V'. readVoxelFromInt32 3 16 [4, 0x0002000A, 0x00020000, 0x00030002, 0x00050009, 3] 0 fresh_voxel =
              Inr (b', 6, V') \<and>
            belongs_count V' = 10 \<and> foreign_count V' = 2 \<and> \<not> is_gt V' \<and> current_index V' = 2 \<and>
            length (counts V') = 4 \<and>
            counts V' ! 0 = 5 \<and> counts V' ! 1 = 0 \<and> counts V' ! 2 = 9 \<and> counts V' ! 3 = 3"
    using r(2) ws f c by (intro exI[of _ b'] exI[of _ V']) simp
  have h0: "counts classless_voxel = [] \<or>
        (3 \<le> length (counts classless_voxel) \<and> length (counts classless_voxel) \<le> 255)"
    by (simp add: classless_voxel_def)
  have enc0: "convertVoxelToInt32 3 16 classless_voxel [] = Inr (True, [0, 0x0002000A, 0x00070000])"
    by code_simp
  from voxel_codec_round_trip[OF h(1) h(2) h0 h(4)] obtain b0 ws0 b0' V0 where
    r0: "convertVoxelToInt32 3 16 classless_voxel [] = Inr (b0, ws0)"
       "readVoxelFromInt32 3 16 ws0 0 fresh_voxel = Inr (b0', length ws0, V0)"
       "belongs_count classless_voxel < 256 \<longrightarrow> belongs_count V0 = belongs_count classless_voxel"
       "foreign_count classless_voxel < 256 \<longrightarrow> foreign_count V0 = foreign_count classless_voxel"
       "is_gt V0 = is_gt classless_voxel"
       "counts classless_voxel = [] \<longrightarrow> current_index V0 = - 1"
       "length (counts V0) = length (counts classless_voxel)"
    by blast
  have ws0: "ws0 = [0, 0x0002000A, 0x00070000]" using r0(1) enc0 by simp
  have f0: "belongs_count V0 = 10" "foreign_count V0 = 2" "\<not> is_gt V0" "current_index V0 = - 1"
           "length (counts V0) = 0"
    using r0(3-7) by (simp_all add: classless_voxel_def)
  have second: "\<exists>b' V'. readVoxelFromInt32 3 16 [0, 0x0002000A, 0x00070000] 0 fresh_voxel = Inr (b', 3, V') \<and>
            belongs_count V' = 10 \<and> foreign_count V' = 2 \<and> \<not> is_gt V' \<and> current_index V' = - 1 \<and>
            length (counts V') = 0"
    using r0(2) ws0 f0 by (intro exI[of _ b0'] exI[of _ V0]) simp
  have h5: "counts five_class_voxel = [] \<or>
        (3 \<le> length (counts five_class_voxel) \<and> length (counts five_class_voxel) \<le> 255)"
    by (simp add: five_class_voxel_def)
  have top5: "in_top_n 3 [5, 1, 9, 3, 4 :: u16] 0" "\<not> in_top_n 3 [5, 1, 9, 3, 4 :: u16] 1"
             "in_top_n 3 [5, 1, 9, 3, 4 :: u16] 2" "\<not> in_top_n 3 [5, 1, 9, 3, 4 :: u16] 3"
             "in_top_n 3 [5, 1, 9, 3, 4 :: u16] 4"
    by code_simp+
  from voxel_codec_round_trip[OF h(1) h(2) h5 h(4)] obtain b5 ws5 b5' V5 where
    r5: "convertVoxelToInt32 3 16 five_class_voxel [] = Inr (b5, ws5)"
       "readVoxelFromInt32 3 16 ws5 0 fresh_voxel = Inr (b5', length ws5, V5)"
       "is_gt V5 = is_gt five_class_voxel"
       "length (counts V5) = length (counts five_class_voxel)"
       "\<forall>i<length (counts five_class_voxel).
          counts V5 ! i = (if in_top_n 3 (counts five_class_voxel) i then counts five_class_voxel ! i else 0)"
    by blast
  have f5: "length (counts V5) = 5" "is_gt V5"
    using r5(3,4) by (simp_all add: five_class_voxel_def)
  have c5: "counts V5 ! 0 = 5" "counts V5 ! 1 = 0" "counts V5 ! 2 = 9" "counts V5 ! 3 = 0"
           "counts V5 ! 4 = 4"
    using r5(5) top5 by (simp_all add: five_class_voxel_def)
  have third: "\<exists>b ws b' V'. convertVoxelToInt32 3 16 five_class_voxel [] = Inr (b, ws) \<and>
            readVoxelFromInt32 3 16 ws 0 fresh_voxel = Inr (b', length ws, V') \<and>
            length (counts V') = 5 \<and> is_gt V' \<and>
            counts V' ! 0 = 5 \<and> counts V' ! 1 = 0 \<and> counts V' ! 2 = 9 \<and> counts V' ! 3 = 0 \<and>
            counts V' ! 4 = 4"
    using r5(1,2) f5 c5 by (intro exI[of _ b5] exI[of _ ws5] exI[of _ b5'] exI[of _ V5]) simp
  have "counts classless_voxel = []" by (simp add: classless_voxel_def)
  then show ?thesis using h enc first enc0 second third by blast
qed

text \<open>
  Where the round trip as the specification states it fails: a \<open>belongs_count\<close> of 300
  fits in 16 bits and comes back as 44, because the decoder casts it to \<open>uint8_t\<close>; a
  voxel without classes comes back with \<open>current_index = -1\<close> whatever it was, by the
  decoder's explicit assignment; an unset \<open>current_index\<close> of a voxel with classes comes
  back as 255; and a voxel with 256 classes is not encoded at all.
\<close>

theorem voxel_codec_round_trip_counterexample:
  "convertVoxelToInt32 3 16 voxel_300 [] =
     Inr (True, [4, 0x0002012C, 0x00020000, 0x00030002, 0x00050009, 3]) \<and>
   readVoxelFromInt32 3 16 [4, 0x0002012C, 0x00020000, 0x00030002, 0x00050009, 3] 0 fresh_voxel =
     Inr (True, 6, voxel_300\<lparr>belongs_count := 44\<rparr>) \<and>
   belongs_count voxel_300 = 300 \<and>
   convertVoxelToInt32 3 16 classless_voxel [] = Inr (True, [0, 0x0002000A, 0x00070000]) \<and>
   readVoxelFromInt32 3 16 [0, 0x0002000A, 0x00070000] 0 fresh_voxel =
     Inr (True, 3, classless_voxel\<lparr>current_index := - 1\<rparr>) \<and>
   current_index classless_voxel = 7 \<and>
   convertVoxelToInt32 3 16 unset_index_voxel [] =
     Inr (True, [4, 0x0002000A, 0xFFFF0000, 0x00030002, 0x00050009, 3]) \<and>
   readVoxelFromInt32 3 16 [4, 0x0002000A, 0xFFFF0000, 0x00030002, 0x00050009, 3] 0 fresh_voxel =
     Inr (True, 6, unset_index_voxel\<lparr>current_index := 255\<rparr>) \<and>
   length (counts voxel_256) = 256 \<and>
   convertVoxelToInt32 3 16 voxel_256 [] = Inl UndefinedBehaviour"
  by code_simp

text \<open>
  C10 (encoding needs \<open>TOP_N\<close> classes): for a voxel with \<open>C\<close> classes, \<open>0 < C < TOP_N\<close>,
  \<open>get_top_n_elems\<close> reads the top of an empty queue, and \<open>convertVoxelToInt32\<close> ends in
  that undefined behaviour (or, for \<open>C \<ge> 258\<close>, in the failed check before it); hence
  whenever \<open>convertVoxelToInt32\<close> returns, \<open>C = 0\<close> or \<open>C \<ge> TOP_N\<close>.
\<close>

theorem encoding_needs_top_n_classes:
  fixes V :: "'c::len word ClassVoxel"
  shows "(0 < length (counts V) \<and> length (counts V) < top_n \<longrightarrow>
            get_top_n_elems (counts V) [] [] top_n = Inl UndefinedBehaviour \<and>
            convertVoxelToInt32 top_n csb V data =
              Inl (if length (counts V) < 258 then UndefinedBehaviour else CheckFailed)) \<and>
         ((\<exists>r. convertVoxelToInt32 top_n csb V data = Inr r) \<longrightarrow>
            length (counts V) = 0 \<or> top_n \<le> length (counts V))"
proof -
  have a: "get_top_n_elems (counts V) [] [] top_n = Inl UndefinedBehaviour \<and>
           convertVoxelToInt32 top_n csb V data =
              Inl (if length (counts V) < 258 then UndefinedBehaviour else CheckFailed)"
    if "0 < length (counts V) \<and> length (counts V) < top_n"
  proof -
    from that have c: "0 < length (counts V)" "length (counts V) < top_n" by simp_all
    have "length (counts V) mod 256 \<le> length (counts V)" by simp
    then have "length (counts V) mod 256 < top_n" using c(2) by (rule le_less_trans)
    then have "get_top_n_elems (counts V) [] [] top_n = Inl UndefinedBehaviour"
      by (rule get_top_n_elems_short)
    then show ?thesis using convertVoxelToInt32_too_few[OF c, of csb data] by simp
  qed
  then have "length (counts V) = 0 \<or> top_n \<le> length (counts V)"
    if "\<exists>r. convertVoxelToInt32 top_n csb V data = Inr r"
    using that by (cases "0 < length (counts V) \<and> length (counts V) < top_n") auto
  with a show ?thesis by blast
qed

theorem encoding_needs_top_n_classes_witness:
  "0 < length (counts two_class_voxel) \<and> length (counts two_class_voxel) < 3 \<and>
   get_top_n_elems (counts two_class_voxel) [] [] 3 = Inl UndefinedBehaviour \<and>
   convertVoxelToInt32 3 16 two_class_voxel [] = Inl UndefinedBehaviour \<and>
   (\<exists>r. convertVoxelToInt32 3 16 scenario_voxel [] = Inr r) \<and>
   3 \<le> length (counts scenario_voxel)"
proof -
  have h: "0 < length (counts two_class_voxel) \<and> length (counts two_class_voxel) < 3"
    by (simp add: two_class_voxel_def)
  have "convertVoxelToInt32 3 16 scenario_voxel [] =
     Inr (True, [4, 0x0002000A, 0x00020000, 0x00030002, 0x00050009, 3])"
    by code_simp
  then have e: "\<exists>r. convertVoxelToInt32 3 16 scenario_voxel [] = Inr r"
    by (rule exI)
  have n: "length (counts scenario_voxel) \<noteq> 0" by (simp add: scenario_voxel_def)
  from encoding_needs_top_n_classes[of two_class_voxel 3 16 "[]"] h
  have "get_top_n_elems (counts two_class_voxel) [] [] 3 = Inl UndefinedBehaviour \<and>
        convertVoxelToInt32 3 16 two_class_voxel [] = Inl UndefinedBehaviour"
    by simp
  moreover from encoding_needs_top_n_classes[of scenario_voxel 3 16 "[]"] e n
  have "3 \<le> length (counts scenario_voxel)" by blast
  ultimately show ?thesis using h e by blast
qed

text \<open>
  Three equal counts among four classes: the selection takes them from the highest
  index down.
\<close>

lemma tie_break_example:
  "get_top_n_elems [7, 7, 7, 1 :: u16] [] [] 3 = Inr ([2, 1, 0], [7, 7, 7]) \<and>
   get_top_n_elems [7, 1, 7, 7 :: u16] [] [] 2 = Inr ([3, 2], [7, 7])"
  by code_simp

text \<open>
  C5 (tie-break in the selection), at counts sequences of 256 and 257 entries, which
  pass \<open>CHECK_LT(class_count, 258)\<close>: the 8-bit loop counter of \<open>get_top_n_elems\<close>
  pushes \<open>size mod 256\<close> entries, that is none or only class 0. With \<open>TOP_N = 3\<close> the
  empty queue is read; with \<open>TOP_N = 1\<close> and all counts equal, class 0 is selected
  although every other class has the same count and a higher index.
\<close>

theorem selection_wraps_at_256:
  "get_top_n_elems (replicate 256 (7 :: u16)) [] [] 3 = Inl UndefinedBehaviour \<and>
   get_top_n_elems (replicate 257 (7 :: u16)) [] [] 3 = Inl UndefinedBehaviour \<and>
   get_top_n_elems (replicate 257 (7 :: u16)) [] [] 1 = Inr ([0], [7])"
  by code_simp

section \<open>The range check of the scatter loop\<close>

lemma read_counts_error:
  "read_counts csb data data_idx js acc = Inl e \<Longrightarrow> e = OutOfRange"
proof (induction js arbitrary: acc)
  case Nil
  then show ?case by simp
next
  case (Cons i js)
  then show ?case
    by (auto simp: Let_def vector_at_def split: sum.splits if_splits)
qed

lemma scatter_error:
  "scatter idxs cs js zs = Inl e \<Longrightarrow> e = OutOfRange"
proof (induction js arbitrary: zs)
  case Nil
  then show ?case by simp
next
  case (Cons i js)
  then show ?case
    by (auto simp: vector_at_def split: sum.splits if_splits)
qed

lemma readVoxelFromInt32_scatter:
  fixes voxel :: "'c::len word ClassVoxel"
  assumes "vector_at data data_idx = Inr num_classes" "num_classes \<noteq> 0"
    and "vector_at data (data_idx + 1) = Inr bytes_1" "vector_at data (data_idx + 2) = Inr bytes_2"
    and "0 < csb" "csb \<le> 32" "num_classes < 0x80000000"
    and "read_indices data (data_idx + 3) [0..<top_n] [] = Inr indices"
  shows "(\<forall>e. (read_counts csb data (data_idx + 3 + (top_n + 3) div 4) [0..<top_n] []
                 :: error + 'c word list) = Inl e \<longrightarrow>
            readVoxelFromInt32 top_n csb data data_idx voxel = Inl e) \<and>
         (\<forall>cs :: 'c word list.
            read_counts csb data (data_idx + 3 + (top_n + 3) div 4) [0..<top_n] [] = Inr cs \<longrightarrow>
            (case scatter indices cs [0..<length indices]
                    (counts voxel @ replicate (unat num_classes) 0) of
               Inl e \<Rightarrow> readVoxelFromInt32 top_n csb data data_idx voxel = Inl e
             | Inr zs \<Rightarrow> \<exists>b pos v'. readVoxelFromInt32 top_n csb data data_idx voxel = Inr (b, pos, v') \<and>
                                   counts v' = zs))"
proof -
  have nz: "(num_classes = 0) = False" using assms(2) by simp
  have p: "0 < 32 div csb" using assms(5,6) by (simp add: div_greater_zero_iff)
  have ub: "(0x80000000 \<le> num_classes) = False" using assms(7) by simp
  have dz: "(32 div csb = 0) = False" using p by simp
  show ?thesis
    by (simp only: readVoxelFromInt32_def assms(1,3,4,8) sum.case Let_def nz ub dz if_False)
       (auto split: sum.splits)
qed

text \<open>
  C9 (range of a decoded class index), as the code does it: the scatter loop writes
  through the bounds-checked \<open>at()\<close>. For a word sequence that declares \<open>C > 0\<close> classes
  and whose header and index words can be read, a decoded index at or beyond the size
  of the counts being filled (the counts the voxel held before the call, followed by
  \<open>C\<close> zeros) makes \<open>readVoxelFromInt32\<close> throw \<open>std::out_of_range\<close>; whenever it
  returns, every decoded index is below that size, so below \<open>C\<close> for a voxel whose
  counts was empty. The index is compared with the size, not with \<open>C\<close>.
\<close>

theorem decode_index_guard:
  fixes voxel :: "'c::len word ClassVoxel"
  assumes "vector_at data data_idx = Inr num_classes" "num_classes \<noteq> 0"
    and "vector_at data (data_idx + 1) = Inr bytes_1" "vector_at data (data_idx + 2) = Inr bytes_2"
    and "0 < csb" "csb \<le> 32" "num_classes < 0x80000000"
    and "read_indices data (data_idx + 3) [0..<top_n] [] = Inr indices"
  shows "((\<exists>j\<in>set indices. length (counts voxel) + unat num_classes \<le> unat j) \<longrightarrow>
            readVoxelFromInt32 top_n csb data data_idx voxel = Inl OutOfRange) \<and>
         ((\<exists>r. readVoxelFromInt32 top_n csb data data_idx voxel = Inr r) \<longrightarrow>
            (\<forall>j\<in>set indices. unat j < length (counts voxel) + unat num_classes))"
proof -
  note u = readVoxelFromInt32_scatter[OF assms, where voxel=voxel]
  have a: "readVoxelFromInt32 top_n csb data data_idx voxel = Inl OutOfRange"
    if "\<exists>j\<in>set indices. length (counts voxel) + unat num_classes \<le> unat j"
  proof (cases "read_counts csb data (data_idx + 3 + (top_n + 3) div 4) [0..<top_n] [] :: error + 'c word list")
    case (Inl e)
    then have "e = OutOfRange" by (rule read_counts_error)
    then show ?thesis using u Inl by simp
  next
    case (Inr cs)
    from that obtain k where k: "k < length indices"
        "length (counts voxel) + unat num_classes \<le> unat (indices ! k)"
      by (auto simp: in_set_conv_nth)
    show ?thesis
    proof (cases "scatter indices cs [0..<length indices] (counts voxel @ replicate (unat num_classes) 0)")
      case (Inl e)
      then have "e = OutOfRange" by (rule scatter_error)
      then show ?thesis using u Inr Inl by simp
    next
      case (Inr zs)
      have "k \<in> set [0..<length indices]" using k(1) by simp
      from scatter_in_range[OF Inr this] k(2) show ?thesis by simp
    qed
  qed
  have b: "\<forall>j\<in>set indices. unat j < length (counts voxel) + unat num_classes"
    if "\<exists>r. readVoxelFromInt32 top_n csb data data_idx voxel = Inr r"
  proof (rule ccontr)
    assume "\<not> (\<forall>j\<in>set indices. unat j < length (counts voxel) + unat num_classes)"
    then have "\<exists>j\<in>set indices. length (counts voxel) + unat num_classes \<le> unat j"
      by (auto simp: not_less)
    from a[OF this] that show False by simp
  qed
  from a b show ?thesis by blast
qed

text \<open>
  Two inputs that declare two classes. On a voxel without counts, the decoded index 5
  is rejected. On a voxel that already holds one count, the decoded index 2 is
  written, although it is not below 2.
\<close>

theorem decode_index_guard_witness:
  "vector_at [2, 0, 0, 0x00050001, 0x00070009, 3 :: u32] 0 = Inr 2 \<and> (2 :: u32) \<noteq> 0 \<and>
   vector_at [2, 0, 0, 0x00050001, 0x00070009, 3 :: u32] (0 + 1) = Inr 0 \<and>
   vector_at [2, 0, 0, 0x00050001, 0x00070009, 3 :: u32] (0 + 2) = Inr 0 \<and>
   (0 :: nat) < 16 \<and> (16 :: nat) \<le> 32 \<and> (2 :: u32) < 0x80000000 \<and>
   read_indices [2, 0, 0, 0x00050001, 0x00070009, 3] (0 + 3) [0..<3] [] = Inr [1, 0, 5] \<and>
   (\<exists>j\<in>set [1, 0, 5 :: u8]. length (counts fresh_voxel) + unat (2 :: u32) \<le> unat j) \<and>
   readVoxelFromInt32 3 16 [2, 0, 0, 0x00050001, 0x00070009, 3] 0 fresh_voxel = Inl OutOfRange \<and>
   readVoxelFromInt32 3 16 [2, 0, 0, 0x00020001, 0x00070009, 3] 0 (fresh_voxel\<lparr>counts := [4]\<rparr>) =
     Inr (True, 6, \<lparr>belongs_count = 0, foreign_count = 0, counts = [7, 9, 3],
                    current_index = 0, is_gt = False\<rparr>)"
proof -
  have h: "vector_at [2, 0, 0, 0x00050001, 0x00070009, 3 :: u32] 0 = Inr 2" "(2 :: u32) \<noteq> 0"
      "vector_at [2, 0, 0, 0x00050001, 0x00070009, 3 :: u32] (0 + 1) = Inr 0"
      "vector_at [2, 0, 0, 0x00050001, 0x00070009, 3 :: u32] (0 + 2) = Inr 0"
      "(0 :: nat) < 16" "(16 :: nat) \<le> 32" "(2 :: u32) < 0x80000000"
    by (simp_all add: vector_at_def)
  have ri: "read_indices [2, 0, 0, 0x00050001, 0x00070009, 3] (0 + 3) [0..<3] [] = Inr [1, 0, 5]"
    by code_simp
  have out: "\<exists>j\<in>set [1, 0, 5 :: u8]. length (counts fresh_voxel) + unat (2 :: u32) \<le> unat j"
    by (simp add: fresh_voxel_def)
  have w: "readVoxelFromInt32 3 16 [2, 0, 0, 0x00020001, 0x00070009, 3] 0 (fresh_voxel\<lparr>counts := [4]\<rparr>) =
     Inr (True, 6, \<lparr>belongs_count = 0, foreign_count = 0, counts = [7, 9, 3],
                    current_index = 0, is_gt = False\<rparr>)"
    by code_simp
  from decode_index_guard[OF h ri, of fresh_voxel] out
  have "readVoxelFromInt32 3 16 [2, 0, 0, 0x00050001, 0x00070009, 3] 0 fresh_voxel = Inl OutOfRange"
    by blast
  then show ?thesis using h ri out w by blast
qed

text \<open>
  The decoded index 5 of a sequence that declares two classes is not scattered into
  the counts of a voxel that held none: the call ends in the exception of \<open>at()\<close>.
\<close>

theorem decode_index_guard_counterexample:
  "readVoxelFromInt32 3 16 [2, 0, 0, 0x00050001, 0x00070009, 3] 0 fresh_voxel = Inl OutOfRange"
  by code_simp

section \<open>Blocks\<close>

lemma encode_voxel_shape:
  fixes V :: "'c::len word ClassVoxel"
  assumes "codec_ok top_n V" "0 < csb" "csb \<le> 32"
  shows "(\<exists>b. convertVoxelToInt32 top_n csb V data = Inr (b, data @ encode_voxel top_n csb V)) \<and>
         (counts V = [] \<longrightarrow> encode_voxel top_n csb V = header_words V) \<and>
         (counts V \<noteq> [] \<longrightarrow>
            (\<exists>P :: ('c word \<times> u8) list.
               encode_voxel top_n csb V =
                 header_words V @ pack_words 8 (map snd P) @ pack_words csb (map fst P) \<and>
               length P = top_n \<and>
               set P \<subseteq> (\<lambda>i. (counts V ! i, of_nat i)) ` {..<length (counts V)}))"
proof (cases "counts V = []")
  case True
  then show ?thesis
    using convertVoxelToInt32_empty[OF True, of top_n csb]
    by (simp add: encode_voxel_def)
next
  case False
  then have C: "length (counts V) \<le> 255" "top_n \<le> length (counts V)"
    using assms(1) by (simp_all add: codec_ok_def)
  from get_top_n_elems_sorted[OF C] obtain P where
    P: "get_top_n_elems (counts V) [] [] top_n = Inr (map snd P, map fst P)"
       "length P = top_n"
       "set P \<subseteq> (\<lambda>i. (counts V ! i, of_nat i)) ` {..<length (counts V)}"
    by blast
  have i8: "convert_vector_to_uint32 (map snd P) out 8 = Inr (out @ pack_words 8 (map snd P))" for out
    by (rule convert_vector_to_uint32_pack_words) simp_all
  have ic: "convert_vector_to_uint32 (map fst P) out csb = Inr (out @ pack_words csb (map fst P))" for out
    using assms(2,3) by (rule convert_vector_to_uint32_pack_words)
  have c: "convertVoxelToInt32 top_n csb V d =
        Inr (True, d @ header_words V @ pack_words 8 (map snd P) @ pack_words csb (map fst P))" for d
    using False C(1) P(1) by (simp add: convertVoxelToInt32_def header_words_def Let_def i8 ic)
  have e: "encode_voxel top_n csb V =
             header_words V @ pack_words 8 (map snd P) @ pack_words csb (map fst P)"
    using c[of "[]"] by (simp add: encode_voxel_def)
  show ?thesis using False c[of data] e P(2,3) by auto
qed

lemma readVoxelFromInt32_encoded:
  fixes V W :: "'c::len word ClassVoxel"
  assumes "codec_ok top_n V" "LENGTH('c) = csb" "csb \<le> 32"
  shows "\<exists>b V'. readVoxelFromInt32 top_n csb (pre @ encode_voxel top_n csb V @ post) (length pre) W =
                   Inr (b, length pre + length (encode_voxel top_n csb V), V')"
    and "3 \<le> length (encode_voxel top_n csb V)"
proof -
  have pos: "0 < csb" using assms(2) by (metis len_gt_0)
  note shape = encode_voxel_shape[OF assms(1) pos assms(3), of "[]"]
  have "(\<exists>b V'. readVoxelFromInt32 top_n csb (pre @ encode_voxel top_n csb V @ post) (length pre) W =
                   Inr (b, length pre + length (encode_voxel top_n csb V), V')) \<and>
        3 \<le> length (encode_voxel top_n csb V)"
  proof (cases "counts V = []")
    case True
    then have e: "encode_voxel top_n csb V = header_words V" using shape by simp
    have l: "length (header_words V) = 3" by (simp add: header_words_def)
    from readVoxelFromInt32_empty[OF True, of top_n csb pre post W]
    show ?thesis using e l by auto
  next
    case False
    then obtain P :: "('c word \<times> u8) list" where
      P: "encode_voxel top_n csb V =
            header_words V @ pack_words 8 (map snd P) @ pack_words csb (map fst P)"
         "length P = top_n"
         "set P \<subseteq> (\<lambda>i. (counts V ! i, of_nat i)) ` {..<length (counts V)}"
      using shape by blast
    have C: "length (counts V) \<le> 255" using assms(1) False by (simp add: codec_ok_def)
    then have lt: "length (counts V) < 258" by simp
    note sel = selected_entries(1)[OF C P(3)]
    have "\<forall>k\<in>set [0..<top_n].
            k < length (map snd P) \<and> k < length (map fst P) \<and>
            unat (map snd P ! k) < length (counts W @ replicate (length (counts V)) (0 :: 'c word)) \<and>
            map fst P ! k = counts V ! unat (map snd P ! k)"
      using sel P(2) by auto
    from scatter_result[OF this] obtain zs where
      zs: "scatter (map snd P) (map fst P) [0..<top_n] (counts W @ replicate (length (counts V)) 0) = Inr zs"
      by blast
    from readVoxelFromInt32_classes[OF False lt assms(2) assms(3) _ _ zs, where pre=pre and post=post] P(2)
    obtain V' where
      d: "readVoxelFromInt32 top_n csb
            (pre @ header_words V @ pack_words 8 (map snd P) @ pack_words csb (map fst P) @ post)
            (length pre) W =
          Inr (True, length pre + 3 + (top_n + 3) div 4 + (top_n + 32 div csb - 1) div (32 div csb), V')"
      by auto
    have len: "length (encode_voxel top_n csb V) =
               3 + (top_n + 3) div 4 + (top_n + 32 div csb - 1) div (32 div csb)"
      using encoded_length[OF pos assms(3), of "map snd P" top_n "map fst P" V] P(1,2) by simp
    show ?thesis using d len P(1) by (auto simp: add.assoc)
  qed
  then show "\<exists>b V'. readVoxelFromInt32 top_n csb (pre @ encode_voxel top_n csb V @ post) (length pre) W =
                   Inr (b, length pre + length (encode_voxel top_n csb V), V')"
    and "3 \<le> length (encode_voxel top_n csb V)"
    by blast+
qed

lemma serialize_loop_encoded:
  fixes vs :: "'c::len word ClassVoxel list"
  assumes "0 < csb" "csb \<le> 32" "\<forall>v\<in>set vs. codec_ok top_n v"
  shows "serialize_loop top_n csb vs data = Inr (data @ concat (map (encode_voxel top_n csb) vs))"
  using assms(3)
proof (induction vs arbitrary: data)
  case Nil
  then show ?case by simp
next
  case (Cons v vs)
  then have "codec_ok top_n v" by simp
  from encode_voxel_shape[OF this assms(1,2), of data] obtain b where
    "convertVoxelToInt32 top_n csb v data = Inr (b, data @ encode_voxel top_n csb v)"
    by blast
  then show ?case using Cons by simp
qed

lemma deserialize_loop_encoded:
  fixes vs ts :: "'c::len word ClassVoxel list"
  assumes "LENGTH('c) = csb" "csb \<le> 32"
  shows "\<forall>v\<in>set vs. codec_ok top_n v \<Longrightarrow> length ts = k + length vs \<Longrightarrow>
         \<exists>ts'. deserialize_loop top_n csb (pre @ concat (map (encode_voxel top_n csb) vs)) k (length pre) ts =
                  Inr (length ts, length (pre @ concat (map (encode_voxel top_n csb) vs)), ts') \<and>
               length ts' = length ts"
proof (induction vs arbitrary: pre k ts)
  case Nil
  then show ?case by (subst deserialize_loop.simps) simp
next
  case (Cons v vs)
  define rest where "rest = concat (map (encode_voxel top_n csb) vs)"
  define data where "data = pre @ encode_voxel top_n csb v @ rest"
  have ok: "codec_ok top_n v" using Cons.prems(1) by simp
  from readVoxelFromInt32_encoded(1)[OF ok assms, where pre=pre and post=rest and W="ts ! k"]
  obtain b V' where
    r: "readVoxelFromInt32 top_n csb data (length pre) (ts ! k) =
          Inr (b, length pre + length (encode_voxel top_n csb v), V')"
    unfolding data_def by blast
  have l: "3 \<le> length (encode_voxel top_n csb v)"
    by (rule readVoxelFromInt32_encoded(2)[OF ok assms])
  have "encode_voxel top_n csb v \<noteq> []" using l by auto
  then have cond: "k < length ts \<and> length pre < length data"
    using Cons.prems(2) by (simp add: data_def)
  have step: "deserialize_loop top_n csb data k (length pre) ts =
              deserialize_loop top_n csb data (Suc k) (length pre + length (encode_voxel top_n csb v))
                (ts[k := V'])"
    using cond r by (subst deserialize_loop.simps) simp
  have "\<exists>ts'. deserialize_loop top_n csb ((pre @ encode_voxel top_n csb v) @ rest) (Suc k)
                  (length (pre @ encode_voxel top_n csb v)) (ts[k := V']) =
                Inr (length (ts[k := V']), length ((pre @ encode_voxel top_n csb v) @ rest), ts') \<and>
              length ts' = length (ts[k := V'])"
    unfolding rest_def using Cons.prems by (intro Cons.IH) simp_all
  then show ?case using step by (simp add: data_def rest_def)
qed

text \<open>
  For voxels of no class, or of at least \<open>TOP_N\<close> and at most 255 classes, reading
  the words of a block back into a block of the same size consumes all words and
  fills all voxels, and the final checks pass.
\<close>

lemma block_stream_consistent:
  fixes b t :: "'c::len word ClassVoxel Block"
  assumes "LENGTH('c) = csb" "csb dvd 32" "\<forall>v\<in>set (voxels b). codec_ok top_n v"
    and "num_voxels t = num_voxels b"
  shows "\<exists>ws vs'. serializeToIntegers top_n csb b = Inr ws \<and>
           deserialize_loop top_n csb ws 0 0 (voxels t) = Inr (num_voxels t, length ws, vs') \<and>
           deserializeFromIntegers top_n csb ws t = Inr (t\<lparr>voxels := vs'\<rparr>) \<and>
           length vs' = num_voxels t"
proof -
  have pos: "0 < csb" using assms(1) by (metis len_gt_0)
  have le: "csb \<le> 32" using assms(2) by (rule dvd_imp_le) simp
  have m: "32 mod csb = 0" using assms(2) by (simp add: mod_eq_0_iff_dvd)
  define ws where "ws = concat (map (encode_voxel top_n csb) (voxels b))"
  have s: "serializeToIntegers top_n csb b = Inr ws"
    using serialize_loop_encoded[OF pos le assms(3), of "[]"] m
    by (simp add: serializeToIntegers_def ws_def)
  have "length (voxels t) = 0 + length (voxels b)" using assms(4) by (simp add: num_voxels_def)
  from deserialize_loop_encoded[OF assms(1) le assms(3) this, of "[]"] obtain vs' where
    d: "deserialize_loop top_n csb ws 0 0 (voxels t) = Inr (length (voxels t), length ws, vs')"
       "length vs' = length (voxels t)"
    unfolding ws_def by auto
  have "deserializeFromIntegers top_n csb ws t = Inr (t\<lparr>voxels := vs'\<rparr>)"
    using d(1) m by (simp add: deserializeFromIntegers_def num_voxels_def Let_def)
  then show ?thesis using s d by (auto simp: num_voxels_def)
qed

text \<open>
  When the read loop ends with voxels left to fill or with a position other than the
  number of words, \<open>deserializeFromIntegers\<close> fails one of its two final checks.
\<close>

lemma short_read_is_fatal:
  assumes "deserialize_loop top_n csb data 0 0 (voxels t) = Inr (voxel_idx, data_idx, vs)"
    and "voxel_idx < num_voxels t \<or> data_idx \<noteq> length data"
  shows "deserializeFromIntegers top_n csb data t = Inl CheckFailed"
  using assms by (auto simp: deserializeFromIntegers_def Let_def)

lemma deserializeFromIntegers_returns:
  assumes "deserializeFromIntegers top_n csb data t = Inr t'"
  shows "\<exists>vs. deserialize_loop top_n csb data 0 0 (voxels t) = Inr (num_voxels t, length data, vs) \<and>
              t' = t\<lparr>voxels := vs\<rparr>"
  using assms by (auto simp: deserializeFromIntegers_def Let_def split: if_splits sum.splits)

text \<open>
  With 256 classes, and with 257 classes when more than one class is to be selected,
  the encoder reads the empty queue, whatever positive \<open>TOP_N\<close> is.
\<close>

lemma encode_wraps_at_256:
  assumes "length (counts V) = 256 \<and> 0 < top_n \<or> length (counts V) = 257 \<and> 1 < top_n"
  shows "convertVoxelToInt32 top_n csb V data = Inl UndefinedBehaviour"
proof -
  have "length (counts V) mod 256 < top_n" using assms by auto
  then have "get_top_n_elems (counts V) [] [] top_n = Inl UndefinedBehaviour"
    by (rule get_top_n_elems_short)
  moreover have "length (counts V) < 258" "length (counts V) \<noteq> 0" using assms by auto
  ultimately show ?thesis by (simp add: convertVoxelToInt32_def Let_def)
qed

text \<open>
  C3 (stream consistency), at a block of one voxel with 256 classes, which passes
  \<open>CHECK_LT(class_count, 258)\<close>: the 8-bit loop counter of \<open>get_top_n_elems\<close> pushes no
  class, the empty queue is read, and \<open>serializeToIntegers\<close> produces no word sequence
  to read back.
\<close>

theorem serialize_256_classes:
  "length (counts voxel_256) = 256 \<and>
   serializeToIntegers 3 16 \<lparr>voxels = [voxel_256]\<rparr> = Inl UndefinedBehaviour"
  by code_simp

end
